theory Spec2Isabelle
  imports Complex_Main "HOL-Library.Char_ord" "HOL-Library.List_Lexorder"
begin

section \<open>FTIR stacked plot: a model of \<open>ftir_stack_plot.py\<close>\<close>

text \<open>
  The script reads its configuration from the environment, loads every CSV file under
  a directory as a curve of (wavenumber, transmittance) samples, detects absorption
  minima per curve and records one annotation per selected minimum.

  Conventions of the model:
  \<^item> a Python float is a \<open>real\<close>: the values are the finite ones and the arithmetic
    (\<open>1.0 - tr\<close>, \<open>x - value\<close>, \<open>(n - i) * OFFSET_STEP\<close>) is exact; comparisons, which
    decide every selection below, are those of the numbers;
  \<^item> a numpy array is a list, an index array a \<open>nat list\<close>;
  \<^item> an exception is the \<open>Inl\<close> of a sum;
  \<^item> plotting is left out: it writes to the figure only and no value read later
    comes from it.
\<close>

subsection \<open>Errors\<close>

text \<open>
  The exceptions of the run. \<open>RuntimeError\<close>, \<open>FileNotFoundError\<close> and the
  \<open>ValueError\<close> of too few columns are raised by the script itself; the other
  \<open>ValueError\<close>s come from \<open>float\<close>, \<open>int\<close>, the assignment of two column names
  and \<open>np.argmin\<close> of an empty array, \<open>IndexError\<close> from indexing an array out of
  range, and \<open>ReadError\<close> stands for whatever \<open>pd.read_csv\<close> raises.
\<close>

datatype error =
  RuntimeError string
| FileNotFoundError string
| ValueError string
| IndexError
| ReadError string

fun map_err :: "('a \<Rightarrow> error + 'b) \<Rightarrow> 'a list \<Rightarrow> error + 'b list" where
  "map_err f [] = Inr []"
| "map_err f (x # xs) =
     (case f x of Inl e \<Rightarrow> Inl e
      | Inr y \<Rightarrow> (case map_err f xs of Inl e \<Rightarrow> Inl e | Inr ys \<Rightarrow> Inr (y # ys)))"

subsection \<open>Strings\<close>

text \<open>
  A character is a code point below 256. \<open>is_space\<close> is the whitespace of
  \<open>str.strip\<close> and of \<open>\s\<close> in a regular expression over \<open>str\<close>.
\<close>

definition is_space :: "char \<Rightarrow> bool" where
  "is_space c = ((of_char c :: nat) \<in> {9, 10, 11, 12, 13, 28, 29, 30, 31, 32, 133, 160})"

definition strip :: "string \<Rightarrow> string" where
  "strip s = rev (dropWhile is_space (rev (dropWhile is_space s)))"

text \<open>\<open>re.split(r"[,\s;]+", s)\<close>: the pieces of \<open>s\<close> between the maximal runs of
  delimiters; a run at either end leaves an empty piece there.\<close>

definition is_delim :: "char \<Rightarrow> bool" where
  "is_delim c = (c = CHR '','' \<or> is_space c \<or> c = CHR '';'')"

function re_split_from :: "string \<Rightarrow> string \<Rightarrow> string list" where
  "re_split_from cur [] = [rev cur]"
| "re_split_from cur (c # cs) =
     (if is_delim c then rev cur # re_split_from [] (dropWhile is_delim cs)
      else re_split_from (c # cur) cs)"
  by pat_completeness auto
termination
  by (relation "measure (\<lambda>(cur, s). length s)")
     (auto simp: less_Suc_eq_le length_dropWhile_le)

definition re_split :: "string \<Rightarrow> string list" where
  "re_split s = re_split_from [] s"

text \<open>\<open>str.lower\<close> on code points below 256, \<open>os.path.basename\<close> with \<open>/\<close> as the
  separator, and \<open>str.replace(",", ".")\<close>.\<close>

definition lower_char :: "char \<Rightarrow> char" where
  "lower_char c =
     (let n = (of_char c :: nat)
      in if (65 \<le> n \<and> n \<le> 90) \<or> (192 \<le> n \<and> n \<le> 222 \<and> n \<noteq> 215)
         then char_of (n + 32) else c)"

definition lower :: "string \<Rightarrow> string" where
  "lower s = map lower_char s"

definition basename :: "string \<Rightarrow> string" where
  "basename p = rev (takeWhile (\<lambda>c. c \<noteq> CHR ''/'') (rev p))"

definition replace_comma :: "string \<Rightarrow> string" where
  "replace_comma s = map (\<lambda>c. if c = CHR '','' then CHR ''.'' else c) s"

subsection \<open>The host: environment, file system and library conversions\<close>

text \<open>
  What the script reads from outside itself. \<open>None\<close> from \<open>py_float\<close> and \<open>py_int\<close> is
  the \<open>ValueError\<close> of \<open>float\<close> and \<open>int\<close>; \<open>None\<close> from \<open>to_numeric\<close> is the missing
  value that \<open>pd.to_numeric(errors="coerce")\<close> puts for a cell it cannot parse.
  A frame is the list of its columns, each the list of its cells as \<open>astype(str)\<close>
  renders them; \<open>glob_csv dir\<close> is the result of the recursive \<open>glob\<close> for \<open>*.csv\<close>
  under \<open>dir\<close>.
\<close>

datatype sep = Comma | Semicolon

type_synonym frame = "string list list"

record host =
  getenv :: "string \<Rightarrow> string option"
  py_float :: "string \<Rightarrow> real option"
  py_int :: "string \<Rightarrow> int option"
  glob_csv :: "string \<Rightarrow> string list"
  read_csv :: "sep \<Rightarrow> string \<Rightarrow> error + frame"
  to_numeric :: "string \<Rightarrow> real option"

definition getenv_default :: "host \<Rightarrow> string \<Rightarrow> string \<Rightarrow> string" where
  "getenv_default h name dflt = (case getenv h name of None \<Rightarrow> dflt | Some v \<Rightarrow> v)"

subsection \<open>Configuration\<close>

record config =
  input_dir :: string
  offset_step :: real
  peak_prominence :: real
  peaks_per_curve :: int
  target_guesses :: "real list option"

text \<open>
  \<^verbatim>\<open>
  TARGET_GUESSES = None
  if _guess_env:
      TARGET_GUESSES = []
      for tok in re.split(r"[,\s;]+", _guess_env):
          if tok:
              try: TARGET_GUESSES.append(float(tok))
              except ValueError: pass
      if not TARGET_GUESSES:
          TARGET_GUESSES = None
  \<close>
\<close>

definition parse_guesses :: "host \<Rightarrow> string \<Rightarrow> real list option" where
  "parse_guesses h guess_env =
     (if guess_env \<noteq> []
      then (let gs = List.map_filter (py_float h) (filter (\<lambda>tok. tok \<noteq> []) (re_split guess_env))
            in if gs = [] then None else Some gs)
      else None)"

definition load_config :: "host \<Rightarrow> error + config" where
  "load_config h =
     (let dir = strip (getenv_default h ''INPUT_DIR'' [])
      in if dir = [] then Inl (RuntimeError ''INPUT_DIR is not set in .env'')
         else
           (case py_float h (getenv_default h ''OFFSET_STEP'' ''0.175'') of
              None \<Rightarrow> Inl (ValueError ''could not convert string to float'')
            | Some step \<Rightarrow>
           (case py_float h (getenv_default h ''PEAK_PROMINENCE'' ''0.001'') of
              None \<Rightarrow> Inl (ValueError ''could not convert string to float'')
            | Some prom \<Rightarrow>
           (case py_int h (getenv_default h ''PEAKS_PER_CURVE'' ''5'') of
              None \<Rightarrow> Inl (ValueError ''invalid literal for int()'')
            | Some ppc \<Rightarrow>
                Inr \<lparr>input_dir = dir, offset_step = step, peak_prominence = prom,
                     peaks_per_curve = ppc,
                     target_guesses =
                       parse_guesses h (strip (getenv_default h ''TARGET_GUESSES'' []))\<rparr>))))"

subsection \<open>CSV loader\<close>

text \<open>
  \<open>_clean\<close>: the first two columns, renamed (an assignment of two names that raises on
  a frame of fewer columns), each cell with its commas replaced and converted, rows
  with a missing value dropped.
\<close>

type_synonym curve = "(real \<times> real) list"

definition dropna :: "(real option \<times> real option) list \<Rightarrow> curve" where
  "dropna rows =
     List.map_filter (\<lambda>(a, b). case a of None \<Rightarrow> None
                               | Some x \<Rightarrow> (case b of None \<Rightarrow> None | Some y \<Rightarrow> Some (x, y))) rows"

definition coerce :: "host \<Rightarrow> string list \<Rightarrow> real option list" where
  "coerce h col = map (\<lambda>cell. to_numeric h (replace_comma cell)) col"

definition clean :: "host \<Rightarrow> frame \<Rightarrow> error + curve" where
  "clean h df =
     (case take 2 df of
        [c0, c1] \<Rightarrow> Inr (dropna (zip (coerce h c0) (coerce h c1)))
      | _ \<Rightarrow> Inl (ValueError ''Length mismatch''))"

text \<open>
  \<open>_read_csv_any\<close>, with the list of the \<open>pd.read_csv\<close> calls it made beside its
  result. Whatever the first attempt raises, the check of the column count and
  \<open>_clean\<close> included, is caught and leads to the second attempt; what the second
  raises propagates.
\<close>

definition first_attempt :: "host \<Rightarrow> string \<Rightarrow> error + curve" where
  "first_attempt h path =
     (case read_csv h Comma path of
        Inl e \<Rightarrow> Inl e
      | Inr df \<Rightarrow> if length df < 2 then Inl (ValueError ''Too few columns'') else clean h df)"

definition second_attempt :: "host \<Rightarrow> string \<Rightarrow> error + curve" where
  "second_attempt h path =
     (case read_csv h Semicolon path of Inl e \<Rightarrow> Inl e | Inr df \<Rightarrow> clean h df)"

definition read_csv_any :: "host \<Rightarrow> string \<Rightarrow> sep list \<times> (error + curve)" where
  "read_csv_any h path =
     (case first_attempt h path of
        Inr c \<Rightarrow> ([Comma], Inr c)
      | Inl _ \<Rightarrow> ([Comma, Semicolon], second_attempt h path))"

subsection \<open>Minima detector\<close>

text \<open>
  Modelled from the spec: \<open>scipy.signal.find_peaks\<close>, which \<open>_find_minima\<close> calls, is
  library code outside the repository. The spec (4.2 and the glossary) asks for the
  ordered sample indices that are local maxima of the signal with topographic
  prominence at least the threshold, the prominence being the drop from the peak to
  the higher of the two lowest points met on either side before a higher sample or
  the end of the signal. The definitions follow the library's two passes: the scan
  for local maxima, which reports the middle sample of a flat top and never the first
  or last sample, and the walk to the left and to the right of each peak.
\<close>

function scan_ahead :: "real list \<Rightarrow> nat \<Rightarrow> nat \<Rightarrow> nat" where
  "scan_ahead x i i_ahead =
     (if i_ahead < length x - 1 \<and> x ! i_ahead = x ! i
      then scan_ahead x i (i_ahead + 1) else i_ahead)"
  by pat_completeness auto
termination
  by (relation "measure (\<lambda>(x, i, i_ahead). length x - 1 - i_ahead)") auto

declare scan_ahead.simps [simp del]

lemma scan_ahead_ge: "i_ahead \<le> scan_ahead x i i_ahead"
proof (induction x i i_ahead rule: scan_ahead.induct)
  case (1 x i i_ahead)
  show ?case
  proof (cases "i_ahead < length x - 1 \<and> x ! i_ahead = x ! i")
    case True
    with "1.IH" have "i_ahead + 1 \<le> scan_ahead x i (i_ahead + 1)" by blast
    with True show ?thesis by (subst scan_ahead.simps) simp
  next
    case False
    then show ?thesis by (subst scan_ahead.simps) auto
  qed
qed

function local_maxima_from :: "real list \<Rightarrow> nat \<Rightarrow> nat list" where
  "local_maxima_from x i =
     (if i < length x - 1
      then (if x ! (i - 1) < x ! i
            then (let i_ahead = scan_ahead x i (i + 1)
                  in if x ! i_ahead < x ! i
                     then ((i + (i_ahead - 1)) div 2) # local_maxima_from x (i_ahead + 1)
                     else local_maxima_from x (i + 1))
            else local_maxima_from x (i + 1))
      else [])"
  by pat_completeness auto
termination
proof (relation "measure (\<lambda>(x, i). length x - i)", goal_cases)
  case 1
  show ?case by simp
next
  case (2 x i i_ahead)
  have "i + 1 \<le> scan_ahead x i (i + 1)" by (rule scan_ahead_ge)
  with 2 show ?case by simp
next
  case (3 x i i_ahead)
  then show ?case by simp
next
  case (4 x i)
  then show ?case by simp
qed

declare local_maxima_from.simps [simp del]

definition local_maxima_1d :: "real list \<Rightarrow> nat list" where
  "local_maxima_1d x = local_maxima_from x 1"

fun left_min_from :: "real list \<Rightarrow> nat \<Rightarrow> nat \<Rightarrow> real \<Rightarrow> real" where
  "left_min_from x peak 0 left_min =
     (if x ! 0 \<le> x ! peak then (if x ! 0 < left_min then x ! 0 else left_min) else left_min)"
| "left_min_from x peak (Suc i) left_min =
     (if x ! Suc i \<le> x ! peak
      then left_min_from x peak i (if x ! Suc i < left_min then x ! Suc i else left_min)
      else left_min)"

function right_min_from :: "real list \<Rightarrow> nat \<Rightarrow> nat \<Rightarrow> real \<Rightarrow> real" where
  "right_min_from x peak i right_min =
     (if i \<le> length x - 1 \<and> i < length x \<and> x ! i \<le> x ! peak
      then right_min_from x peak (i + 1) (if x ! i < right_min then x ! i else right_min)
      else right_min)"
  by pat_completeness auto
termination
  by (relation "measure (\<lambda>(x, peak, i, right_min). length x - i)") auto

declare right_min_from.simps [simp del]

definition peak_prominence_at :: "real list \<Rightarrow> nat \<Rightarrow> real" where
  "peak_prominence_at x peak =
     x ! peak - max (left_min_from x peak peak (x ! peak)) (right_min_from x peak peak (x ! peak))"

definition find_peaks :: "real list \<Rightarrow> real \<Rightarrow> nat list" where
  "find_peaks x prominence =
     filter (\<lambda>peak. prominence \<le> peak_prominence_at x peak) (local_maxima_1d x)"

text \<open>\<open>_find_minima\<close>: the peaks of \<open>1.0 - tr\<close>; the wavenumbers are not used.\<close>

definition find_minima :: "real list \<Rightarrow> real list \<Rightarrow> real \<Rightarrow> nat list" where
  "find_minima wn tr prominence = (let inverted = map (\<lambda>t. 1 - t) tr in find_peaks inverted prominence)"

text \<open>
  A flat top of the signal: the samples \<open>l..r\<close> are equal, inside the signal, and
  the samples next to them on either side are strictly lower.
\<close>

definition flat_top :: "real list \<Rightarrow> nat \<Rightarrow> nat \<Rightarrow> bool" where
  "flat_top x l r =
     (0 < l \<and> l \<le> r \<and> r + 1 < length x \<and> (\<forall>k\<in>{l..r}. x ! k = x ! l)
      \<and> x ! (l - 1) < x ! l \<and> x ! (r + 1) < x ! l)"

subsection \<open>Array indexing\<close>

text \<open>\<open>a[i]\<close> for one index and \<open>a[idx]\<close> for an index array; both raise out of range.\<close>

definition at_index :: "'a list \<Rightarrow> nat \<Rightarrow> error + 'a" where
  "at_index a i = (if i < length a then Inr (a ! i) else Inl IndexError)"

definition at_indices :: "'a list \<Rightarrow> nat list \<Rightarrow> error + 'a list" where
  "at_indices a idx = map_err (at_index a) idx"

text \<open>\<open>np.argmin\<close>: the first index of the least value; an empty array raises.\<close>

fun argmin_from :: "real list \<Rightarrow> nat \<Rightarrow> nat \<Rightarrow> real \<Rightarrow> nat" where
  "argmin_from [] k best_k best = best_k"
| "argmin_from (v # vs) k best_k best =
     (if v < best then argmin_from vs (k + 1) k v else argmin_from vs (k + 1) best_k best)"

definition argmin :: "real list \<Rightarrow> error + nat" where
  "argmin vs = (case vs of [] \<Rightarrow> Inl (ValueError ''attempt to get argmin of an empty sequence'')
                | v # rest \<Rightarrow> Inr (argmin_from rest 1 0 v))"

definition nearest_index :: "real list \<Rightarrow> real \<Rightarrow> error + nat" where
  "nearest_index x v = argmin (map (\<lambda>xi. \<bar>xi - v\<bar>) x)"

subsection \<open>Annotation records\<close>

datatype mode = Guess | Auto

record annotation =
  file_name :: string
  mode :: mode
  guess_cm :: "real option"
  peak_cm :: real
  transmittance :: real

definition bind_err :: "error + 'a \<Rightarrow> ('a \<Rightarrow> error + 'b) \<Rightarrow> error + 'b" where
  "bind_err r f = (case r of Inl e \<Rightarrow> Inl e | Inr v \<Rightarrow> f v)"

subsection \<open>Guess mode: the detected minimum nearest to each guess\<close>

text \<open>
  \<^verbatim>\<open>
  for guess in TARGET_GUESSES:
      if peak_idx.size == 0:
          continue
      nearest = peak_idx[_nearest_index(wn[peak_idx], guess)]
      p_wn = wn[nearest]
      p_tr = tr[nearest]
      peak_rows.append({"file": name, "mode": "guess", "guess_cm-1": guess,
                        "peak_cm-1": float(p_wn), "transmittance": float(p_tr)})
  \<close>
\<close>

definition guess_rows ::
  "string \<Rightarrow> real list \<Rightarrow> real list \<Rightarrow> nat list \<Rightarrow> real \<Rightarrow> error + annotation list" where
  "guess_rows name wn tr peak_idx guess =
     (if length peak_idx = 0 then Inr []
      else
        bind_err (at_indices wn peak_idx) (\<lambda>cand.
        bind_err (nearest_index cand guess) (\<lambda>k.
        bind_err (at_index peak_idx k) (\<lambda>nearest.
        bind_err (at_index wn nearest) (\<lambda>p_wn.
        bind_err (at_index tr nearest) (\<lambda>p_tr.
          Inr [\<lparr>file_name = name, mode = Guess, guess_cm = Some guess,
                peak_cm = p_wn, transmittance = p_tr\<rparr>]))))))"

definition annotate_guess ::
  "string \<Rightarrow> real list \<Rightarrow> real list \<Rightarrow> nat list \<Rightarrow> real list \<Rightarrow> error + annotation list" where
  "annotate_guess name wn tr peak_idx guesses =
     bind_err (map_err (guess_rows name wn tr peak_idx) guesses) (\<lambda>rs. Inr (concat rs))"

subsection \<open>Auto mode: the deepest minima of a curve\<close>

text \<open>
  \<open>np.argsort(depths)\<close>: the indices of \<open>depths\<close> in ascending order of value.
  The library's default sort is not stable: it leaves the order among equal values
  open, and that order varies with the library's build. The definition fixes one
  ascending arrangement of the indices (equal values in index order); of the
  theorems on auto mode, those of the claims use only that the result arranges all
  indices in ascending order of value.
\<close>

definition argsort :: "real list \<Rightarrow> nat list" where
  "argsort d = sort_key (\<lambda>i. d ! i) [0..<length d]"

text \<open>
  \<^verbatim>\<open>
  if peak_idx.size > 0 and PEAKS_PER_CURVE > 0:
      depths = (1.0 - tr[peak_idx])
      order = np.argsort(depths)[::-1][:PEAKS_PER_CURVE]
      for idx in peak_idx[order]:
          p_wn = wn[idx]
          p_tr = tr[idx]
          peak_rows.append({"file": name, "mode": "auto", "guess_cm-1": None,
                            "peak_cm-1": float(p_wn), "transmittance": float(p_tr)})
  \<close>
  The slice \<open>[:PEAKS_PER_CURVE]\<close> is only reached with a positive count, where it
  is \<open>take\<close>.
\<close>

definition auto_order :: "real list \<Rightarrow> int \<Rightarrow> nat list" where
  "auto_order depths ppc = take (nat ppc) (rev (argsort depths))"

definition auto_row :: "string \<Rightarrow> real list \<Rightarrow> real list \<Rightarrow> nat \<Rightarrow> error + annotation" where
  "auto_row name wn tr idx =
     bind_err (at_index wn idx) (\<lambda>p_wn.
     bind_err (at_index tr idx) (\<lambda>p_tr.
       Inr \<lparr>file_name = name, mode = Auto, guess_cm = None,
            peak_cm = p_wn, transmittance = p_tr\<rparr>))"

definition annotate_auto ::
  "string \<Rightarrow> real list \<Rightarrow> real list \<Rightarrow> nat list \<Rightarrow> int \<Rightarrow> error + annotation list" where
  "annotate_auto name wn tr peak_idx ppc =
     (if length peak_idx > 0 \<and> ppc > 0
      then
        bind_err (at_indices tr peak_idx) (\<lambda>tp.
        bind_err (at_indices peak_idx (auto_order (map (\<lambda>t. 1 - t) tp) ppc)) (\<lambda>sel.
          map_err (auto_row name wn tr) sel))
      else Inr [])"

subsection \<open>The run\<close>

text \<open>
  \<open>sorted(glob.glob(...), key=lambda p: os.path.basename(p).lower())\<close> is a stable
  sort on the key, as \<open>sort_key\<close> is. \<open>df.sort_values("wavenumber", ascending=False)\<close>
  puts the samples in descending order of wavenumber; the library's default sort
  leaves the order among samples of equal wavenumber open, and the definition fixes
  one such order (equal wavenumbers in file order).
\<close>

definition sorted_files :: "host \<Rightarrow> string \<Rightarrow> string list" where
  "sorted_files h dir = sort_key (\<lambda>p. lower (basename p)) (glob_csv h dir)"

definition sort_values_desc :: "curve \<Rightarrow> curve" where
  "sort_values_desc df = sort_key (\<lambda>(w, t). - w) df"

definition load_curve :: "host \<Rightarrow> string \<Rightarrow> error + (string \<times> curve)" where
  "load_curve h path =
     bind_err (snd (read_csv_any h path)) (\<lambda>df. Inr (basename path, sort_values_desc df))"

definition load_all :: "host \<Rightarrow> string list \<Rightarrow> error + (string \<times> curve) list" where
  "load_all h csv_files = map_err (load_curve h) csv_files"

text \<open>\<open>if TARGET_GUESSES:\<close> holds for a list that is there and not empty.\<close>

definition truthy :: "real list option \<Rightarrow> bool" where
  "truthy gs = (case gs of None \<Rightarrow> False | Some l \<Rightarrow> l \<noteq> [])"

text \<open>
  One turn of the loop over \<open>enumerate(curves, start=1)\<close>: the curve's label and
  offset as plotted, and the rows it appends to \<open>peak_rows\<close>.
\<close>

definition process_curve ::
  "config \<Rightarrow> nat \<Rightarrow> nat \<times> (string \<times> curve) \<Rightarrow> error + ((string \<times> real) \<times> annotation list)" where
  "process_curve cfg n ic =
     (case ic of (i, (name, df)) \<Rightarrow>
        (let wn = map fst df;
             tr = map snd df;
             offset = of_int (int n - int i) * offset_step cfg;
             peak_idx = find_minima wn tr (peak_prominence cfg)
         in bind_err
              (if truthy (target_guesses cfg)
               then annotate_guess name wn tr peak_idx (the (target_guesses cfg))
               else annotate_auto name wn tr peak_idx (peaks_per_curve cfg))
              (\<lambda>rows. Inr ((name, offset), rows))))"

definition plot_all ::
  "config \<Rightarrow> (string \<times> curve) list \<Rightarrow> error + ((string \<times> real) \<times> annotation list) list" where
  "plot_all cfg curves =
     (let n = length curves in map_err (process_curve cfg n) (zip [1..<n + 1] curves))"

record outcome =
  plotted :: "(string \<times> real) list"
  peak_rows :: "annotation list"
  summary :: "annotation list option"

definition run :: "host \<Rightarrow> error + outcome" where
  "run h =
     bind_err (load_config h) (\<lambda>cfg.
       (let csv_files = sorted_files h (input_dir cfg)
        in if csv_files = []
           then Inl (FileNotFoundError (''No CSV files found under: '' @ input_dir cfg))
           else
             bind_err (load_all h csv_files) (\<lambda>curves.
             bind_err (plot_all cfg curves) (\<lambda>res.
               (let rows = concat (map snd res)
                in Inr \<lparr>plotted = map fst res, peak_rows = rows,
                        summary = (if rows \<noteq> [] then Some rows else None)\<rparr>)))))"

subsection \<open>Names for the values of one turn of the loop\<close>

text \<open>
  \<open>peak_idx_of\<close> is the \<open>peak_idx\<close> of the loop body for a curve, \<open>selection\<close> the
  array \<open>peak_idx[order]\<close> of auto mode, and the two records are the rows appended
  to \<open>peak_rows\<close> for a sample index of the curve.
\<close>

definition peak_idx_of :: "config \<Rightarrow> curve \<Rightarrow> nat list" where
  "peak_idx_of cfg df = find_minima (map fst df) (map snd df) (peak_prominence cfg)"

definition selection :: "config \<Rightarrow> curve \<Rightarrow> nat list" where
  "selection cfg df =
     map ((!) (peak_idx_of cfg df))
       (auto_order (map (\<lambda>p. 1 - snd (df ! p)) (peak_idx_of cfg df)) (peaks_per_curve cfg))"

definition auto_record :: "string \<Rightarrow> curve \<Rightarrow> nat \<Rightarrow> annotation" where
  "auto_record name df p =
     \<lparr>file_name = name, mode = Auto, guess_cm = None,
      peak_cm = fst (df ! p), transmittance = snd (df ! p)\<rparr>"

definition guess_record :: "string \<Rightarrow> curve \<Rightarrow> real \<Rightarrow> nat \<Rightarrow> annotation" where
  "guess_record name df g p =
     \<lparr>file_name = name, mode = Guess, guess_cm = Some g,
      peak_cm = fst (df ! p), transmittance = snd (df ! p)\<rparr>"

subsection \<open>Names for the outcomes of a run\<close>

text \<open>
  \<open>attempt_fails\<close>: a read with one delimiter raises or gives fewer than two
  columns, the two ways in which an attempt of \<open>_read_csv_any\<close> does not return a
  curve. \<open>summary_written\<close>: the rows of \<open>ftir_peaks_summary.csv\<close> after the run,
  \<open>None\<close> when the run does not write the file.
\<close>

definition attempt_fails :: "host \<Rightarrow> sep \<Rightarrow> string \<Rightarrow> bool" where
  "attempt_fails h s path = (case read_csv h s path of Inl _ \<Rightarrow> True | Inr df \<Rightarrow> length df < 2)"

definition summary_written :: "host \<Rightarrow> annotation list option" where
  "summary_written h = (case run h of Inl _ \<Rightarrow> None | Inr out \<Rightarrow> summary out)"

subsection \<open>Example inputs\<close>

text \<open>Concrete configurations and curves on which the theorems below are evaluated.\<close>

definition example_config :: "int \<Rightarrow> real list option \<Rightarrow> config" where
  "example_config ppc gs =
     \<lparr>input_dir = ''data'', offset_step = 0.175, peak_prominence = 0.001,
      peaks_per_curve = ppc, target_guesses = gs\<rparr>"

definition three_dips :: curve where
  "three_dips = [(7, 1), (6, 0.5), (5, 1), (4, 0.2), (3, 1), (2, 0.7), (1, 1)]"

definition flat_curve :: curve where
  "flat_curve = [(3, 1), (2, 1), (1, 1)]"

subsection \<open>A host for the examples\<close>

text \<open>
  Conversions that read plain decimal literals the way \<open>int\<close> and \<open>float\<close> do:
  surrounding whitespace, a sign, digits with single underscores between them, for
  a float also a fraction and an exponent. The literals of the infinities and of
  NaN denote no real number and are not read. The examples use them for
  \<open>py_int\<close>, \<open>py_float\<close> and \<open>to_numeric\<close>.
\<close>

definition is_digit :: "char \<Rightarrow> bool" where
  "is_digit c = (CHR ''0'' \<le> c \<and> c \<le> CHR ''9'')"

fun digit_group :: "string \<Rightarrow> string option" where
  "digit_group [] = None"
| "digit_group [c] = (if is_digit c then Some [c] else None)"
| "digit_group (c # d # cs) =
     (if is_digit c
      then (if d = CHR ''_'' then map_option ((#) c) (digit_group cs)
            else map_option ((#) c) (digit_group (d # cs)))
      else None)"

definition digits_value :: "string \<Rightarrow> 'a::semiring_1" where
  "digits_value ds = foldl (\<lambda>a c. 10 * a + of_nat (of_char c - 48)) 0 ds"

definition signed :: "(string \<Rightarrow> 'a option) \<Rightarrow> ('a \<Rightarrow> 'a) \<Rightarrow> string \<Rightarrow> 'a option" where
  "signed body neg s =
     (case s of
        [] \<Rightarrow> None
      | c # r \<Rightarrow> if c = CHR ''-'' then map_option neg (body r)
                 else if c = CHR ''+'' then body r
                 else body s)"

definition decimal_int :: "string \<Rightarrow> int option" where
  "decimal_int s =
     signed (\<lambda>t. map_option (\<lambda>ds. digits_value ds) (digit_group t)) uminus (strip s)"

definition mantissa :: "string \<Rightarrow> real option" where
  "mantissa m =
     (let ip = takeWhile (\<lambda>c. c \<noteq> CHR ''.'') m;
          rest = dropWhile (\<lambda>c. c \<noteq> CHR ''.'') m
      in case rest of
           [] \<Rightarrow> map_option (\<lambda>ds. digits_value ds) (digit_group ip)
         | _ # fp \<Rightarrow>
             if fp = [] then map_option (\<lambda>ds. digits_value ds) (digit_group ip)
             else (case digit_group fp of
                     None \<Rightarrow> None
                   | Some fs \<Rightarrow>
                       if ip = [] then Some (digits_value fs / 10 ^ length fs)
                       else map_option
                              (\<lambda>ds. digits_value ds + digits_value fs / 10 ^ length fs)
                              (digit_group ip)))"

definition unsigned_float :: "string \<Rightarrow> real option" where
  "unsigned_float s =
     (let m = takeWhile (\<lambda>c. c \<noteq> CHR ''e'' \<and> c \<noteq> CHR ''E'') s;
          rest = dropWhile (\<lambda>c. c \<noteq> CHR ''e'' \<and> c \<noteq> CHR ''E'') s
      in case rest of
           [] \<Rightarrow> mantissa m
         | _ # ex \<Rightarrow>
             (case mantissa m of
                None \<Rightarrow> None
              | Some v \<Rightarrow>
                  (case signed (\<lambda>t. map_option (\<lambda>ds. digits_value ds) (digit_group t)) uminus ex of
                     None \<Rightarrow> None
                   | Some k \<Rightarrow> Some (if 0 \<le> k then v * 10 ^ nat k else v / 10 ^ nat (- k)))))"

definition decimal_float :: "string \<Rightarrow> real option" where
  "decimal_float s = signed unsigned_float uminus (strip s)"

text \<open>
  Four files. \<open>b.csv\<close> is comma-separated with one cell that is not a number;
  \<open>A.csv\<close> is semicolon-separated with decimal commas, so that the comma attempt
  sees one column only; \<open>empty.csv\<close> has a header of two columns and no rows;
  \<open>bad.csv\<close> cannot be read with either delimiter.
\<close>

definition example_read_csv :: "sep \<Rightarrow> string \<Rightarrow> error + frame" where
  "example_read_csv s path =
     (if path = ''data/b.csv'' then
        (case s of
           Comma \<Rightarrow> Inr [[''4000'', ''3500'', ''3000'', ''2500'', ''n/a''],
                         [''0.95'', ''0.40'', ''0.92'', ''0.97'', ''0.5''],
                         [''x'', ''x'', ''x'', ''x'', ''x'']]
         | Semicolon \<Rightarrow> Inr [[''4000,0.95,x'', ''3500,0.40,x'', ''3000,0.92,x'', ''2500,0.97,x'',
                             ''n/a,0.5,x'']])
      else if path = ''data/sub/A.csv'' then
        (case s of
           Comma \<Rightarrow> Inr [[''9'', ''3'', ''8'']]
         | Semicolon \<Rightarrow> Inr [[''1000'', ''2000'', ''3000''], [''0,9'', ''0,3'', ''0,8'']])
      else if path = ''data/empty.csv'' then
        (case s of Comma \<Rightarrow> Inr [[], []] | Semicolon \<Rightarrow> Inr [[]])
      else Inl (ReadError ''Error tokenizing data''))"

definition example_host :: "(string \<times> string) list \<Rightarrow> string list \<Rightarrow> host" where
  "example_host env files =
     \<lparr>getenv = map_of env, py_float = decimal_float, py_int = decimal_int,
      glob_csv = (\<lambda>dir. if dir = ''data'' then files else []),
      read_csv = example_read_csv, to_numeric = decimal_float\<rparr>"

section \<open>Properties of the minima detector\<close>

lemma scan_ahead_le: "j \<le> length x - 1 \<Longrightarrow> scan_ahead x i j \<le> length x - 1"
proof (induction x i j rule: scan_ahead.induct)
  case (1 x i j)
  show ?case
  proof (cases "j < length x - 1 \<and> x ! j = x ! i")
    case True
    with 1 show ?thesis by (subst scan_ahead.simps) simp
  next
    case False
    with 1 show ?thesis by (subst scan_ahead.simps) simp
  qed
qed

lemma scan_ahead_flat:
  "j \<le> k \<Longrightarrow> k < scan_ahead x i j \<Longrightarrow> x ! k = x ! i"
proof (induction x i j rule: scan_ahead.induct)
  case (1 x i j)
  show ?case
  proof (cases "j < length x - 1 \<and> x ! j = x ! i")
    case True
    then have eq: "scan_ahead x i j = scan_ahead x i (j + 1)"
      by (subst scan_ahead.simps) simp
    show ?thesis
    proof (cases "k = j")
      case True
      with \<open>j < length x - 1 \<and> x ! j = x ! i\<close> show ?thesis by simp
    next
      case False
      with 1 True eq show ?thesis by simp
    qed
  next
    case False
    then have "scan_ahead x i j = j" by (subst scan_ahead.simps) auto
    with 1 show ?thesis by simp
  qed
qed


lemma local_maxima_from_stop:
  "\<not> i < length x - 1 \<Longrightarrow> local_maxima_from x i = []"
  by (subst local_maxima_from.simps) simp

lemma local_maxima_from_skip:
  "i < length x - 1 \<Longrightarrow> \<not> x ! (i - 1) < x ! i \<Longrightarrow>
     local_maxima_from x i = local_maxima_from x (i + 1)"
  by (subst local_maxima_from.simps) simp

lemma local_maxima_from_miss:
  "i < length x - 1 \<Longrightarrow> x ! (i - 1) < x ! i \<Longrightarrow> \<not> x ! scan_ahead x i (i + 1) < x ! i \<Longrightarrow>
     local_maxima_from x i = local_maxima_from x (i + 1)"
  by (subst local_maxima_from.simps) (simp add: Let_def)

lemma local_maxima_from_hit:
  "i < length x - 1 \<Longrightarrow> x ! (i - 1) < x ! i \<Longrightarrow> x ! scan_ahead x i (i + 1) < x ! i \<Longrightarrow>
     local_maxima_from x i =
       ((i + (scan_ahead x i (i + 1) - 1)) div 2) # local_maxima_from x (scan_ahead x i (i + 1) + 1)"
  by (subst local_maxima_from.simps) (simp add: Let_def)

lemma flat_top_hit:
  assumes pos: "0 < i" and inb: "i < length x - 1" and up: "x ! (i - 1) < x ! i"
    and down: "x ! scan_ahead x i (i + 1) < x ! i"
  shows "flat_top x i (scan_ahead x i (i + 1) - 1)"
proof -
  define a where "a = scan_ahead x i (i + 1)"
  have a_ge: "i + 1 \<le> a" unfolding a_def by (rule scan_ahead_ge)
  have "i + 1 \<le> length x - 1" using inb by arith
  then have a_le: "a \<le> length x - 1" unfolding a_def by (rule scan_ahead_le)
  have flat: "x ! k = x ! i" if "k \<in> {i..a - 1}" for k
  proof (cases "k = i")
    case True
    then show ?thesis by simp
  next
    case False
    with that have "i + 1 \<le> k" "k < a" using a_ge by auto
    then show ?thesis unfolding a_def by (rule scan_ahead_flat)
  qed
  have r1: "a - 1 + 1 = a" using a_ge by arith
  have c1: "i \<le> a - 1" using a_ge by arith
  have c2: "a - 1 + 1 < length x" using a_le inb by arith
  have "x ! a < x ! i" using down unfolding a_def .
  then have c3: "x ! (a - 1 + 1) < x ! i" by (simp only: r1)
  have "flat_top x i (a - 1)"
    unfolding flat_top_def using pos c1 c2 c3 up flat by blast
  then show ?thesis unfolding a_def .
qed

lemma local_maxima_from_props:
  "0 < i \<Longrightarrow> p \<in> set (local_maxima_from x i) \<Longrightarrow>
     \<exists>l r. i \<le> l \<and> flat_top x l r \<and> p = (l + r) div 2"
proof (induction x i rule: local_maxima_from.induct)
  case (1 x i)
  note pos = \<open>0 < i\<close> and mem = \<open>p \<in> set (local_maxima_from x i)\<close>
  show ?case
  proof (cases "i < length x - 1")
    case False
    with mem show ?thesis by (simp add: local_maxima_from_stop)
  next
    case inb: True
    show ?thesis
    proof (cases "x ! (i - 1) < x ! i")
      case False
      with inb mem have "p \<in> set (local_maxima_from x (i + 1))"
        by (simp add: local_maxima_from_skip)
      from "1.IH"(3)[OF inb False _ this] obtain l r
        where "i + 1 \<le> l" "flat_top x l r" "p = (l + r) div 2" by auto
      then have "i \<le> l \<and> flat_top x l r \<and> p = (l + r) div 2" by simp
      then show ?thesis by blast
    next
      case up: True
      define a where "a = scan_ahead x i (i + 1)"
      have a_ge: "i + 1 \<le> a" unfolding a_def by (rule scan_ahead_ge)
      show ?thesis
      proof (cases "x ! a < x ! i")
        case False
        with inb up mem have "p \<in> set (local_maxima_from x (i + 1))"
          by (simp add: local_maxima_from_miss a_def)
        from "1.IH"(2)[OF inb up a_def False _ this] obtain l r
          where "i + 1 \<le> l" "flat_top x l r" "p = (l + r) div 2" by auto
        then have "i \<le> l \<and> flat_top x l r \<and> p = (l + r) div 2" by simp
        then show ?thesis by blast
      next
        case down: True
        with inb up mem have "p = (i + (a - 1)) div 2 \<or> p \<in> set (local_maxima_from x (a + 1))"
          by (simp add: local_maxima_from_hit a_def)
        then show ?thesis
        proof
          assume p: "p = (i + (a - 1)) div 2"
          have "flat_top x i (a - 1)"
            unfolding a_def using pos inb up down by (intro flat_top_hit) (simp_all add: a_def)
          with p have "i \<le> i \<and> flat_top x i (a - 1) \<and> p = (i + (a - 1)) div 2" by simp
          then show ?thesis by blast
        next
          assume "p \<in> set (local_maxima_from x (a + 1))"
          from "1.IH"(1)[OF inb up a_def down _ this] obtain l r
            where "a + 1 \<le> l" "flat_top x l r" "p = (l + r) div 2" by auto
          with a_ge have "i \<le> l \<and> flat_top x l r \<and> p = (l + r) div 2" by simp
          then show ?thesis by blast
        qed
      qed
    qed
  qed
qed

lemma flat_top_mid:
  assumes "flat_top x l r"
  shows "l \<le> (l + r) div 2" "(l + r) div 2 \<le> r" "0 < (l + r) div 2" "(l + r) div 2 + 1 < length x"
    "x ! ((l + r) div 2) = x ! l"
proof -
  from assms have lr: "0 < l" "l \<le> r" "r + 1 < length x" and eq: "\<forall>k\<in>{l..r}. x ! k = x ! l"
    unfolding flat_top_def by blast+
  show a: "l \<le> (l + r) div 2" using lr by arith
  show b: "(l + r) div 2 \<le> r" using lr by arith
  show "0 < (l + r) div 2" using lr by arith
  show "(l + r) div 2 + 1 < length x" using lr by arith
  have "(l + r) div 2 \<in> {l..r}" using a b by simp
  with eq show "x ! ((l + r) div 2) = x ! l" by blast
qed

lemma local_maxima_from_ge:
  "0 < i \<Longrightarrow> p \<in> set (local_maxima_from x i) \<Longrightarrow> i \<le> p"
proof -
  assume "0 < i" "p \<in> set (local_maxima_from x i)"
  then obtain l r where "i \<le> l" "flat_top x l r" "p = (l + r) div 2"
    using local_maxima_from_props[of i p x] by blast
  with flat_top_mid(1)[of x l r] show "i \<le> p" by simp
qed

lemma local_maxima_from_sorted:
  "0 < i \<Longrightarrow> sorted_wrt (<) (local_maxima_from x i)"
proof (induction x i rule: local_maxima_from.induct)
  case (1 x i)
  note pos = \<open>0 < i\<close>
  show ?case
  proof (cases "i < length x - 1")
    case False
    then show ?thesis by (simp add: local_maxima_from_stop)
  next
    case inb: True
    show ?thesis
    proof (cases "x ! (i - 1) < x ! i")
      case False
      from "1.IH"(3)[OF inb False] inb False show ?thesis
        by (simp add: local_maxima_from_skip)
    next
      case up: True
      define a where "a = scan_ahead x i (i + 1)"
      have a_ge: "i + 1 \<le> a" unfolding a_def by (rule scan_ahead_ge)
      show ?thesis
      proof (cases "x ! a < x ! i")
        case False
        from "1.IH"(2)[OF inb up a_def False] inb up False show ?thesis
          by (simp add: local_maxima_from_miss a_def)
      next
        case down: True
        have tail: "sorted_wrt (<) (local_maxima_from x (a + 1))"
          using "1.IH"(1)[OF inb up a_def down] by simp
        have "(i + (a - 1)) div 2 < q" if "q \<in> set (local_maxima_from x (a + 1))" for q
        proof -
          have "a + 1 \<le> q" using that by (intro local_maxima_from_ge) simp_all
          moreover have "(i + (a - 1)) div 2 \<le> a - 1" using a_ge by arith
          ultimately show ?thesis by arith
        qed
        with tail have "sorted_wrt (<) (((i + (a - 1)) div 2) # local_maxima_from x (a + 1))"
          by simp
        with inb up down show ?thesis by (simp add: local_maxima_from_hit a_def)
      qed
    qed
  qed
qed

lemma local_maxima_1d_flat:
  "p \<in> set (local_maxima_1d x) \<Longrightarrow> \<exists>l r. flat_top x l r \<and> p = (l + r) div 2"
  unfolding local_maxima_1d_def using local_maxima_from_props[of 1 p x] by auto

lemma local_maxima_1d_sorted: "sorted_wrt (<) (local_maxima_1d x)"
  unfolding local_maxima_1d_def by (rule local_maxima_from_sorted) simp

lemma local_maxima_1d_range:
  assumes "p \<in> set (local_maxima_1d x)"
  shows "0 < p \<and> p + 1 < length x"
proof -
  from local_maxima_1d_flat[OF assms] obtain l r where "flat_top x l r" "p = (l + r) div 2"
    by blast
  then show ?thesis using flat_top_mid(3,4)[of x l r] by simp
qed

lemma flat_top_not_sorted: "flat_top x l r \<Longrightarrow> \<not> sorted x"
proof
  assume ft: "flat_top x l r" and s: "sorted x"
  from ft have "l \<le> r" "r + 1 < length x" "x ! (r + 1) < x ! l"
    and eq: "\<forall>k\<in>{l..r}. x ! k = x ! l"
    unfolding flat_top_def by blast+
  moreover have "r \<in> {l..r}" using \<open>l \<le> r\<close> by simp
  with eq have "x ! r = x ! l" by blast
  moreover from s \<open>r + 1 < length x\<close> have "x ! r \<le> x ! (r + 1)"
    by (simp add: sorted_iff_nth_mono)
  ultimately show False by simp
qed

lemma flat_top_not_sorted_rev: "flat_top x l r \<Longrightarrow> \<not> sorted (rev x)"
proof
  assume ft: "flat_top x l r" and s: "sorted (rev x)"
  from ft have b: "0 < l" "l \<le> r" "r + 1 < length x" "x ! (l - 1) < x ! l"
    unfolding flat_top_def by blast+
  have "l < length x" using b by arith
  have "l - 1 \<le> l" by simp
  with s \<open>l < length x\<close> have "x ! l \<le> x ! (l - 1)"
    unfolding sorted_rev_iff_nth_mono by blast
  with b show False by simp
qed

lemma local_maxima_1d_monotone:
  "sorted x \<or> sorted (rev x) \<Longrightarrow> local_maxima_1d x = []"
proof (rule ccontr)
  assume m: "sorted x \<or> sorted (rev x)" and ne: "local_maxima_1d x \<noteq> []"
  then obtain p where "p \<in> set (local_maxima_1d x)" by (cases "local_maxima_1d x") auto
  from local_maxima_1d_flat[OF this] obtain l r where "flat_top x l r" by blast
  with m flat_top_not_sorted flat_top_not_sorted_rev show False by blast
qed

lemma flat_top_weak_max:
  assumes ft: "flat_top x l r" and lp: "l \<le> p" and pr: "p \<le> r"
  shows "x ! (p - 1) \<le> x ! p \<and> x ! (p + 1) \<le> x ! p"
proof -
  from ft have b: "0 < l" "l \<le> r" "r + 1 < length x" "x ! (l - 1) < x ! l" "x ! (r + 1) < x ! l"
    and eq: "\<forall>k\<in>{l..r}. x ! k = x ! l"
    unfolding flat_top_def by blast+
  have inn: "x ! k = x ! l" if "l \<le> k" "k \<le> r" for k
  proof -
    from that have "k \<in> {l..r}" by simp
    with eq show ?thesis by blast
  qed
  have p: "x ! p = x ! l" using lp pr by (rule inn)
  have left: "x ! (p - 1) \<le> x ! l"
  proof (cases "p = l")
    case True
    with b show ?thesis by simp
  next
    case False
    with lp pr have "l \<le> p - 1" "p - 1 \<le> r" by arith+
    then have "x ! (p - 1) = x ! l" by (rule inn)
    then show ?thesis by simp
  qed
  have right: "x ! (p + 1) \<le> x ! l"
  proof (cases "p = r")
    case True
    with b show ?thesis by simp
  next
    case False
    with lp pr have "l \<le> p + 1" "p + 1 \<le> r" by arith+
    then have "x ! (p + 1) = x ! l" by (rule inn)
    then show ?thesis by simp
  qed
  from p left right show ?thesis by simp
qed

lemma find_peaks_subset: "set (find_peaks x prom) \<subseteq> set (local_maxima_1d x)"
  by (simp add: find_peaks_def)

lemma find_peaks_sorted: "sorted_wrt (<) (find_peaks x prom)"
  unfolding find_peaks_def by (intro sorted_wrt_filter local_maxima_1d_sorted)

lemma find_peaks_range: "p \<in> set (find_peaks x prom) \<Longrightarrow> 0 < p \<and> p + 1 < length x"
  using find_peaks_subset[of x prom] local_maxima_1d_range[of p x] by blast

lemma find_minima_range: "p \<in> set (find_minima wn tr prom) \<Longrightarrow> p < length tr"
  using find_peaks_range[of p "map (\<lambda>t. 1 - t) tr" prom] by (simp add: find_minima_def)

lemma sorted_inverted:
  "sorted tr \<Longrightarrow> sorted (rev (map (\<lambda>t. 1 - t) tr))"
  "sorted (rev tr) \<Longrightarrow> sorted (map (\<lambda>t. 1 - t) (tr :: real list))"
  by (simp_all add: sorted_wrt_rev sorted_wrt_map)

section \<open>Properties of the annotators\<close>

lemma map_err_Inr:
  "(\<And>x. x \<in> set xs \<Longrightarrow> f x = Inr (g x)) \<Longrightarrow> map_err f xs = Inr (map g xs)"
  by (induction xs) simp_all

lemma at_indices_Inr:
  "(\<And>i. i \<in> set idx \<Longrightarrow> i < length a) \<Longrightarrow> at_indices a idx = Inr (map ((!) a) idx)"
  unfolding at_indices_def by (rule map_err_Inr) (simp add: at_index_def)

lemma insort_key_lex:
  fixes f :: "nat \<Rightarrow> real"
  assumes "sorted_wrt (\<lambda>i j. f i < f j \<or> (f i = f j \<and> i < j)) ys"
    and "\<forall>y\<in>set ys. x < y"
  shows "sorted_wrt (\<lambda>i j. f i < f j \<or> (f i = f j \<and> i < j)) (insort_key f x ys)"
  using assms
proof (induction ys)
  case Nil
  then show ?case by simp
next
  case (Cons y ys)
  show ?case
  proof (cases "f x \<le> f y")
    case True
    have "f x < f z \<or> (f x = f z \<and> x < z)" if "z \<in> set (y # ys)" for z
    proof -
      have "f y \<le> f z" using that Cons.prems(1) by auto
      with True have "f x \<le> f z" by simp
      moreover have "x < z" using that Cons.prems(2) by blast
      ultimately show ?thesis by auto
    qed
    with Cons.prems(1) True show ?thesis by simp
  next
    case False
    then have "f y < f x" by simp
    moreover have "sorted_wrt (\<lambda>i j. f i < f j \<or> (f i = f j \<and> i < j)) (insort_key f x ys)"
      using Cons by simp
    ultimately show ?thesis using Cons.prems(1) False by (auto simp: set_insort_key)
  qed
qed

lemma sort_key_lex:
  fixes f :: "nat \<Rightarrow> real"
  shows "sorted_wrt (<) xs \<Longrightarrow>
    sorted_wrt (\<lambda>i j. f i < f j \<or> (f i = f j \<and> i < j)) (sort_key f xs)"
proof (induction xs)
  case Nil
  then show ?case by simp
next
  case (Cons x xs)
  then have "sorted_wrt (\<lambda>i j. f i < f j \<or> (f i = f j \<and> i < j)) (sort_key f xs)"
    and "\<forall>y\<in>set (sort_key f xs). x < y" by simp_all
  then show ?case using insort_key_lex[of f "sort_key f xs" x] by simp
qed

lemma argsort_lex:
  "sorted_wrt (\<lambda>i j. d ! i < d ! j \<or> (d ! i = d ! j \<and> i < j)) (argsort d)"
  unfolding argsort_def by (rule sort_key_lex) simp

lemma argsort_set: "set (argsort d) = {0..<length d}"
  by (simp add: argsort_def)

lemma argsort_length: "length (argsort d) = length d"
  by (simp add: argsort_def)

lemma auto_order_lex:
  "sorted_wrt (\<lambda>i j. d ! j < d ! i \<or> (d ! j = d ! i \<and> j < i)) (auto_order d ppc)"
proof -
  have "sorted_wrt (\<lambda>i j. d ! j < d ! i \<or> (d ! j = d ! i \<and> j < i)) (rev (argsort d))"
    using argsort_lex[of d] by (simp add: sorted_wrt_rev)
  then show ?thesis unfolding auto_order_def by (rule sorted_wrt_take)
qed

lemma auto_order_set: "set (auto_order d ppc) \<subseteq> {0..<length d}"
  unfolding auto_order_def using set_take_subset[of "nat ppc" "rev (argsort d)"]
  by (simp add: argsort_set)

lemma auto_order_length: "length (auto_order d ppc) = min (nat ppc) (length d)"
  by (simp add: auto_order_def argsort_length min.commute)

lemma bind_err_Inr [simp]: "bind_err (Inr v) f = f v"
  by (simp add: bind_err_def)

lemma bind_err_Inl [simp]: "bind_err (Inl e) f = Inl e"
  by (simp add: bind_err_def)

lemma auto_row_Inr:
  "idx < length wn \<Longrightarrow> idx < length tr \<Longrightarrow>
   auto_row name wn tr idx =
     Inr \<lparr>file_name = name, mode = Auto, guess_cm = None,
          peak_cm = wn ! idx, transmittance = tr ! idx\<rparr>"
  by (simp add: auto_row_def at_index_def)

lemma annotate_auto_eq:
  assumes r: "\<And>p. p \<in> set peak_idx \<Longrightarrow> p < length tr" and len: "length wn = length tr"
  shows "annotate_auto name wn tr peak_idx ppc =
     Inr (if 0 < length peak_idx \<and> 0 < ppc
          then map (\<lambda>k. \<lparr>file_name = name, mode = Auto, guess_cm = None,
                          peak_cm = wn ! (peak_idx ! k), transmittance = tr ! (peak_idx ! k)\<rparr>)
                   (auto_order (map (\<lambda>p. 1 - tr ! p) peak_idx) ppc)
          else [])"
proof (cases "0 < length peak_idx \<and> 0 < ppc")
  case False
  then show ?thesis by (auto simp: annotate_auto_def)
next
  case True
  define d where "d = map (\<lambda>p. 1 - tr ! p) peak_idx"
  define ord where "ord = auto_order d ppc"
  have tp: "at_indices tr peak_idx = Inr (map ((!) tr) peak_idx)"
    using r by (rule at_indices_Inr)
  have d: "map (\<lambda>t. 1 - t) (map ((!) tr) peak_idx) = d"
    by (simp add: d_def)
  have ord_lt: "k < length peak_idx" if "k \<in> set ord" for k
    using that auto_order_set[of d ppc] by (auto simp: ord_def d_def)
  then have sel: "at_indices peak_idx ord = Inr (map ((!) peak_idx) ord)"
    by (rule at_indices_Inr)
  have rows: "map_err (auto_row name wn tr) (map ((!) peak_idx) ord) =
      Inr (map (\<lambda>idx. \<lparr>file_name = name, mode = Auto, guess_cm = None,
                       peak_cm = wn ! idx, transmittance = tr ! idx\<rparr>) (map ((!) peak_idx) ord))"
  proof (rule map_err_Inr)
    fix idx assume "idx \<in> set (map ((!) peak_idx) ord)"
    then obtain k where "k \<in> set ord" "idx = peak_idx ! k" by auto
    with ord_lt have "idx \<in> set peak_idx" by simp
    then have "idx < length tr" by (rule r)
    then show "auto_row name wn tr idx =
      Inr \<lparr>file_name = name, mode = Auto, guess_cm = None,
           peak_cm = wn ! idx, transmittance = tr ! idx\<rparr>"
      using len by (simp add: auto_row_Inr)
  qed
  have "annotate_auto name wn tr peak_idx ppc =
      Inr (map (\<lambda>idx. \<lparr>file_name = name, mode = Auto, guess_cm = None,
                       peak_cm = wn ! idx, transmittance = tr ! idx\<rparr>) (map ((!) peak_idx) ord))"
    using True unfolding annotate_auto_def
    by (simp only: if_True simp_thms tp bind_err_Inr d ord_def[symmetric] sel rows)
  with True show ?thesis by (simp add: ord_def d_def comp_def)
qed

lemma map_err_total:
  "(\<And>x. x \<in> set xs \<Longrightarrow> \<exists>y. f x = Inr y) \<Longrightarrow>
   \<exists>ys. map_err f xs = Inr ys \<and> length ys = length xs \<and> (\<forall>k<length xs. f (xs ! k) = Inr (ys ! k))"
proof (induction xs)
  case Nil
  then show ?case by simp
next
  case (Cons x xs)
  from Cons.prems obtain y where y: "f x = Inr y" by auto
  from Cons obtain ys where ys: "map_err f xs = Inr ys" "length ys = length xs"
    "\<forall>k<length xs. f (xs ! k) = Inr (ys ! k)" by auto
  have "\<forall>k<length (x # xs). f ((x # xs) ! k) = Inr ((y # ys) ! k)"
  proof (intro allI impI)
    fix k assume "k < length (x # xs)"
    then show "f ((x # xs) ! k) = Inr ((y # ys) ! k)"
      using y ys(3) by (cases k) simp_all
  qed
  with y ys(1,2) show ?case by simp
qed

lemma map_err_Inl:
  "map_err f xs = Inl e \<Longrightarrow> \<exists>x\<in>set xs. f x = Inl e"
  by (induction xs) (auto split: sum.splits)

lemma concat_singletons:
  "(\<And>r. r \<in> set rs \<Longrightarrow> \<exists>y. r = [y]) \<Longrightarrow> concat rs = map hd rs"
proof (induction rs)
  case Nil
  then show ?case by simp
next
  case (Cons a rs)
  from Cons.prems[of a] obtain y where "a = [y]" by auto
  moreover have "concat rs = map hd rs" using Cons by simp
  ultimately show ?case by simp
qed

lemma argmin_from_spec:
  assumes "xs = pre @ vs" "length pre = k" "best_k < k" "best = xs ! best_k"
    "\<forall>j<k. best \<le> xs ! j"
  shows "argmin_from vs k best_k best < length xs
    \<and> (\<forall>j<length xs. xs ! (argmin_from vs k best_k best) \<le> xs ! j)"
  using assms
proof (induction vs arbitrary: pre k best_k best)
  case Nil
  then show ?case by simp
next
  case (Cons v vs)
  have xs: "xs = (pre @ [v]) @ vs" and len: "length (pre @ [v]) = k + 1"
    using Cons.prems by simp_all
  have vk: "xs ! k = v" using Cons.prems(1,2) by (simp add: nth_append)
  show ?case
  proof (cases "v < best")
    case True
    have "\<forall>j<k + 1. v \<le> xs ! j"
    proof (intro allI impI)
      fix j assume "j < k + 1"
      show "v \<le> xs ! j"
      proof (cases "j = k")
        case True
        then show ?thesis using vk by simp
      next
        case False
        with \<open>j < k + 1\<close> have "j < k" by simp
        with Cons.prems(5) have "best \<le> xs ! j" by blast
        with \<open>v < best\<close> show ?thesis by simp
      qed
    qed
    then have "argmin_from vs (k + 1) k v < length xs
        \<and> (\<forall>j<length xs. xs ! (argmin_from vs (k + 1) k v) \<le> xs ! j)"
      using Cons.IH[OF xs len, of k v] vk by simp
    with True show ?thesis by simp
  next
    case False
    have "\<forall>j<k + 1. best \<le> xs ! j"
    proof (intro allI impI)
      fix j assume "j < k + 1"
      show "best \<le> xs ! j"
      proof (cases "j = k")
        case True
        then show ?thesis using vk \<open>\<not> v < best\<close> by simp
      next
        case False
        with \<open>j < k + 1\<close> have "j < k" by simp
        with Cons.prems(5) show ?thesis by blast
      qed
    qed
    then have "argmin_from vs (k + 1) best_k best < length xs
        \<and> (\<forall>j<length xs. xs ! (argmin_from vs (k + 1) best_k best) \<le> xs ! j)"
      using Cons.IH[OF xs len, of best_k best] Cons.prems(3,4) by simp
    with False show ?thesis by simp
  qed
qed

lemma argmin_spec:
  assumes "vs \<noteq> []"
  shows "\<exists>m. argmin vs = Inr m \<and> m < length vs \<and> (\<forall>j<length vs. vs ! m \<le> vs ! j)"
proof -
  from assms obtain v rest where vs: "vs = v # rest" by (cases vs) auto
  have "argmin_from rest 1 0 v < length vs
      \<and> (\<forall>j<length vs. vs ! (argmin_from rest 1 0 v) \<le> vs ! j)"
    by (rule argmin_from_spec[where pre = "[v]"]) (simp_all add: vs)
  then show ?thesis by (simp add: argmin_def vs)
qed

lemma nearest_index_spec:
  assumes "x \<noteq> []"
  shows "\<exists>m. nearest_index x g = Inr m \<and> m < length x
      \<and> (\<forall>j<length x. \<bar>x ! m - g\<bar> \<le> \<bar>x ! j - g\<bar>)"
proof -
  have "map (\<lambda>xi. \<bar>xi - g\<bar>) x \<noteq> []" using assms by simp
  from argmin_spec[OF this] obtain m where m: "argmin (map (\<lambda>xi. \<bar>xi - g\<bar>) x) = Inr m"
    "m < length x" "\<forall>j<length x. map (\<lambda>xi. \<bar>xi - g\<bar>) x ! m \<le> map (\<lambda>xi. \<bar>xi - g\<bar>) x ! j"
    by auto
  then have "\<forall>j<length x. \<bar>x ! m - g\<bar> \<le> \<bar>x ! j - g\<bar>" by simp
  with m(1,2) show ?thesis by (simp add: nearest_index_def)
qed

lemma guess_rows_spec:
  assumes r: "\<And>p. p \<in> set peak_idx \<Longrightarrow> p < length tr" and len: "length wn = length tr"
    and ne: "peak_idx \<noteq> []"
  shows "\<exists>p\<in>set peak_idx.
      guess_rows name wn tr peak_idx g =
        Inr [\<lparr>file_name = name, mode = Guess, guess_cm = Some g,
              peak_cm = wn ! p, transmittance = tr ! p\<rparr>]
      \<and> (\<forall>q\<in>set peak_idx. \<bar>wn ! p - g\<bar> \<le> \<bar>wn ! q - g\<bar>)"
proof -
  have cand: "at_indices wn peak_idx = Inr (map ((!) wn) peak_idx)"
    using r len by (intro at_indices_Inr) simp
  from ne have "map ((!) wn) peak_idx \<noteq> []" by simp
  from nearest_index_spec[OF this, of g] obtain m where
    m: "nearest_index (map ((!) wn) peak_idx) g = Inr m" "m < length peak_idx"
    and least: "\<forall>j<length peak_idx. \<bar>wn ! (peak_idx ! m) - g\<bar> \<le> \<bar>wn ! (peak_idx ! j) - g\<bar>"
    by auto
  define p where "p = peak_idx ! m"
  have pin: "p \<in> set peak_idx" using m(2) by (simp add: p_def)
  then have plt: "p < length tr" by (rule r)
  have "guess_rows name wn tr peak_idx g =
        Inr [\<lparr>file_name = name, mode = Guess, guess_cm = Some g,
              peak_cm = wn ! p, transmittance = tr ! p\<rparr>]"
    using ne m plt len by (simp add: guess_rows_def cand at_index_def p_def)
  moreover have "\<forall>q\<in>set peak_idx. \<bar>wn ! p - g\<bar> \<le> \<bar>wn ! q - g\<bar>"
    using least unfolding p_def by (metis in_set_conv_nth)
  ultimately show ?thesis using pin by blast
qed

lemma guess_rows_empty: "guess_rows name wn tr [] g = Inr []"
  by (simp add: guess_rows_def)

lemma peak_idx_of_range: "p \<in> set (peak_idx_of cfg df) \<Longrightarrow> p < length df"
  unfolding peak_idx_of_def using find_minima_range[of p "map fst df" "map snd df"] by simp

lemma peak_idx_of_sorted: "sorted_wrt (<) (peak_idx_of cfg df)"
  unfolding peak_idx_of_def find_minima_def by (simp add: find_peaks_sorted)

lemma selection_nth:
  "a < length (selection cfg df) \<Longrightarrow>
   \<exists>k < length (peak_idx_of cfg df). selection cfg df ! a = peak_idx_of cfg df ! k"
  unfolding selection_def using auto_order_set nth_mem by fastforce

lemma selection_set: "set (selection cfg df) \<subseteq> set (peak_idx_of cfg df)"
  unfolding selection_def using auto_order_set by fastforce

lemma selection_length:
  "length (selection cfg df) = min (nat (peaks_per_curve cfg)) (length (peak_idx_of cfg df))"
  by (simp add: selection_def auto_order_length)

lemma process_curve_auto:
  assumes "\<not> truthy (target_guesses cfg)"
  shows "process_curve cfg n (i, name, df) =
     Inr ((name, of_int (int n - int i) * offset_step cfg),
          map (auto_record name df) (selection cfg df))"
proof -
  define peaks where "peaks = peak_idx_of cfg df"
  define ord where "ord = auto_order (map (\<lambda>p. 1 - snd (df ! p)) peaks) (peaks_per_curve cfg)"
  have r: "\<And>p. p \<in> set peaks \<Longrightarrow> p < length (map snd df)"
    unfolding peaks_def using peak_idx_of_range by simp
  have d: "map (\<lambda>p. 1 - map snd df ! p) peaks = map (\<lambda>p. 1 - snd (df ! p)) peaks"
    using r by simp
  have ord_lt: "k < length peaks" if "k \<in> set ord" for k
    using that auto_order_set[of "map (\<lambda>p. 1 - snd (df ! p)) peaks" "peaks_per_curve cfg"]
    by (auto simp: ord_def)
  have rec: "map (\<lambda>k. \<lparr>file_name = name, mode = Auto, guess_cm = None,
                       peak_cm = map fst df ! (peaks ! k), transmittance = map snd df ! (peaks ! k)\<rparr>) ord
      = map (auto_record name df) (map ((!) peaks) ord)"
  proof -
    have "peaks ! k < length df" if "k \<in> set ord" for k
      using ord_lt[OF that] r[of "peaks ! k"] by simp
    then show ?thesis by (simp add: auto_record_def)
  qed
  have empty: "ord = []" if "\<not> (0 < length peaks \<and> 0 < peaks_per_curve cfg)"
    using that by (auto simp: ord_def auto_order_def argsort_def)
  have "annotate_auto name (map fst df) (map snd df) peaks (peaks_per_curve cfg)
      = Inr (map (auto_record name df) (map ((!) peaks) ord))"
  proof (cases "0 < length peaks \<and> 0 < peaks_per_curve cfg")
    case True
    then show ?thesis
      using annotate_auto_eq[of peaks "map snd df" "map fst df" name "peaks_per_curve cfg", OF r]
      by (simp only: d ord_def[symmetric] rec length_map if_True simp_thms)
  next
    case False
    then have "annotate_auto name (map fst df) (map snd df) peaks (peaks_per_curve cfg) = Inr []"
      by (auto simp: annotate_auto_def)
    with empty[OF False] show ?thesis by simp
  qed
  then show ?thesis using assms
    by (simp add: process_curve_def Let_def peaks_def peak_idx_of_def[symmetric]
        selection_def ord_def)
qed

lemma selection_lex:
  assumes "a < b" "b < length (selection cfg df)"
  shows "snd (df ! (selection cfg df ! a)) < snd (df ! (selection cfg df ! b))
     \<or> (snd (df ! (selection cfg df ! a)) = snd (df ! (selection cfg df ! b))
        \<and> selection cfg df ! b < selection cfg df ! a)"
proof -
  define peaks where "peaks = peak_idx_of cfg df"
  define d where "d = map (\<lambda>p. 1 - snd (df ! p)) peaks"
  define ord where "ord = auto_order d (peaks_per_curve cfg)"
  have sel: "selection cfg df = map ((!) peaks) ord"
    by (simp add: selection_def peaks_def ord_def d_def)
  have len: "b < length ord" "a < length ord" using assms by (simp_all add: sel)
  have ltk: "ord ! k < length peaks" if "k < length ord" for k
  proof -
    from that have "ord ! k \<in> set ord" by simp
    then have "ord ! k \<in> {0..<length d}"
      using auto_order_set[of d "peaks_per_curve cfg"] unfolding ord_def by blast
    then show ?thesis by (simp add: d_def)
  qed
  have lt: "ord ! a < length peaks" "ord ! b < length peaks"
    using len by (simp_all add: ltk)
  from auto_order_lex[of d "peaks_per_curve cfg"] assms(1) len(1)
  have "d ! (ord ! b) < d ! (ord ! a) \<or> (d ! (ord ! b) = d ! (ord ! a) \<and> ord ! b < ord ! a)"
    unfolding ord_def[symmetric] by (simp add: sorted_wrt_iff_nth_less)
  moreover have "d ! (ord ! a) = 1 - snd (df ! (peaks ! (ord ! a)))"
    "d ! (ord ! b) = 1 - snd (df ! (peaks ! (ord ! b)))"
    using lt by (simp_all add: d_def)
  moreover have "peaks ! (ord ! b) < peaks ! (ord ! a)" if "ord ! b < ord ! a"
    using that lt peak_idx_of_sorted[of cfg df]
    by (simp add: peaks_def sorted_wrt_iff_nth_less)
  ultimately show ?thesis using len by (auto simp: sel)
qed

lemma annotate_guess_empty: "annotate_guess name wn tr [] gs = Inr []"
proof -
  have "map_err (guess_rows name wn tr []) gs = Inr (map (\<lambda>g. []) gs)"
    by (rule map_err_Inr) (simp add: guess_rows_empty)
  then show ?thesis by (simp add: annotate_guess_def)
qed

lemma annotate_guess_spec:
  assumes r: "\<And>p. p \<in> set peak_idx \<Longrightarrow> p < length tr" and len: "length wn = length tr"
    and ne: "peak_idx \<noteq> []"
  shows "\<exists>rows. annotate_guess name wn tr peak_idx gs = Inr rows \<and> length rows = length gs
     \<and> (\<forall>k<length gs. \<exists>p\<in>set peak_idx.
           rows ! k = \<lparr>file_name = name, mode = Guess, guess_cm = Some (gs ! k),
                       peak_cm = wn ! p, transmittance = tr ! p\<rparr>
           \<and> (\<forall>q\<in>set peak_idx. \<bar>wn ! p - gs ! k\<bar> \<le> \<bar>wn ! q - gs ! k\<bar>))"
proof -
  have ex: "\<exists>y. guess_rows name wn tr peak_idx g = Inr y" for g
    using guess_rows_spec[OF r len ne, of name g] by blast
  from map_err_total[of gs "guess_rows name wn tr peak_idx"] ex
  obtain rs where rs: "map_err (guess_rows name wn tr peak_idx) gs = Inr rs"
    "length rs = length gs" "\<forall>k<length gs. guess_rows name wn tr peak_idx (gs ! k) = Inr (rs ! k)"
    by blast
  have one: "\<exists>p\<in>set peak_idx.
        rs ! k = [\<lparr>file_name = name, mode = Guess, guess_cm = Some (gs ! k),
                   peak_cm = wn ! p, transmittance = tr ! p\<rparr>]
        \<and> (\<forall>q\<in>set peak_idx. \<bar>wn ! p - gs ! k\<bar> \<le> \<bar>wn ! q - gs ! k\<bar>)"
    if "k < length gs" for k
  proof -
    from guess_rows_spec[OF r len ne, of name "gs ! k"] obtain p where
      "p \<in> set peak_idx"
      "guess_rows name wn tr peak_idx (gs ! k) =
          Inr [\<lparr>file_name = name, mode = Guess, guess_cm = Some (gs ! k),
                peak_cm = wn ! p, transmittance = tr ! p\<rparr>]"
      "\<forall>q\<in>set peak_idx. \<bar>wn ! p - gs ! k\<bar> \<le> \<bar>wn ! q - gs ! k\<bar>" by blast
    moreover from rs(3) that have "guess_rows name wn tr peak_idx (gs ! k) = Inr (rs ! k)"
      by blast
    ultimately show ?thesis by auto
  qed
  have single: "\<exists>y. s = [y]" if "s \<in> set rs" for s
  proof -
    from that obtain k where "k < length rs" "s = rs ! k" by (auto simp: in_set_conv_nth)
    with one[of k] rs(2) show ?thesis by auto
  qed
  then have cc: "concat rs = map hd rs" by (rule concat_singletons)
  have "\<forall>k<length gs. \<exists>p\<in>set peak_idx.
           map hd rs ! k = \<lparr>file_name = name, mode = Guess, guess_cm = Some (gs ! k),
                       peak_cm = wn ! p, transmittance = tr ! p\<rparr>
           \<and> (\<forall>q\<in>set peak_idx. \<bar>wn ! p - gs ! k\<bar> \<le> \<bar>wn ! q - gs ! k\<bar>)"
  proof (intro allI impI)
    fix k assume k: "k < length gs"
    from one[OF k] obtain p where p: "p \<in> set peak_idx"
      "rs ! k = [\<lparr>file_name = name, mode = Guess, guess_cm = Some (gs ! k),
                   peak_cm = wn ! p, transmittance = tr ! p\<rparr>]"
      "\<forall>q\<in>set peak_idx. \<bar>wn ! p - gs ! k\<bar> \<le> \<bar>wn ! q - gs ! k\<bar>" by blast
    from k rs(2) p(2) have "map hd rs ! k = \<lparr>file_name = name, mode = Guess, guess_cm = Some (gs ! k),
                   peak_cm = wn ! p, transmittance = tr ! p\<rparr>" by simp
    with p(1,3) show "\<exists>p\<in>set peak_idx.
           map hd rs ! k = \<lparr>file_name = name, mode = Guess, guess_cm = Some (gs ! k),
                       peak_cm = wn ! p, transmittance = tr ! p\<rparr>
           \<and> (\<forall>q\<in>set peak_idx. \<bar>wn ! p - gs ! k\<bar> \<le> \<bar>wn ! q - gs ! k\<bar>)" by blast
  qed
  moreover have "annotate_guess name wn tr peak_idx gs = Inr (map hd rs)"
    by (simp add: annotate_guess_def rs(1) cc)
  moreover have "length (map hd rs) = length gs" using rs(2) by simp
  ultimately show ?thesis by blast
qed

section \<open>Properties of the CSV loader\<close>

lemma dropna_coerce:
  "dropna (zip (coerce h c0) (coerce h c1)) =
     map (\<lambda>(a, b). (the (to_numeric h (replace_comma a)), the (to_numeric h (replace_comma b))))
       (filter (\<lambda>(a, b). to_numeric h (replace_comma a) \<noteq> None
                         \<and> to_numeric h (replace_comma b) \<noteq> None) (zip c0 c1))"
proof (induction c0 arbitrary: c1)
  case Nil
  then show ?case by (simp add: dropna_def coerce_def List.map_filter_simps)
next
  case (Cons a c0)
  show ?case
  proof (cases c1)
    case Nil
    then show ?thesis by (simp add: dropna_def coerce_def List.map_filter_simps)
  next
    case (Cons b c1')
    from Cons.IH[of c1'] show ?thesis
      unfolding Cons dropna_def coerce_def
      by (auto simp: List.map_filter_simps split: option.splits)
  qed
qed

lemma clean_Inr:
  "clean h (c0 # c1 # rest) = Inr (dropna (zip (coerce h c0) (coerce h c1)))"
  by (simp add: clean_def)

lemma clean_Inl:
  "length df < 2 \<Longrightarrow> clean h df = Inl (ValueError ''Length mismatch'')"
  by (cases df rule: list.exhaust; cases "tl df") (auto simp: clean_def)

lemma two_columns: "2 \<le> length df \<Longrightarrow> \<exists>c0 c1 rest. df = c0 # c1 # rest"
  by (cases df; cases "tl df") auto

lemma first_attempt_Inr:
  "first_attempt h path = Inr c \<longleftrightarrow>
     (\<exists>c0 c1 rest. read_csv h Comma path = Inr (c0 # c1 # rest)
        \<and> c = dropna (zip (coerce h c0) (coerce h c1)))"
proof (cases "read_csv h Comma path")
  case (Inl e)
  then show ?thesis by (simp add: first_attempt_def)
next
  case (Inr df)
  show ?thesis
  proof (cases "length df < 2")
    case True
    then have "\<nexists>c0 c1 rest. df = c0 # c1 # rest" by auto
    with True Inr show ?thesis by (simp add: first_attempt_def)
  next
    case False
    then obtain c0 c1 rest where "df = c0 # c1 # rest" using two_columns[of df] by auto
    with Inr show ?thesis by (auto simp: first_attempt_def clean_Inr)
  qed
qed

lemma first_attempt_Inl:
  "(\<exists>e. first_attempt h path = Inl e) \<longleftrightarrow>
     (\<exists>e. read_csv h Comma path = Inl e) \<or> (\<exists>df. read_csv h Comma path = Inr df \<and> length df < 2)"
proof (cases "read_csv h Comma path")
  case (Inl e)
  then show ?thesis by (simp add: first_attempt_def)
next
  case (Inr df)
  show ?thesis
  proof (cases "length df < 2")
    case True
    with Inr show ?thesis by (simp add: first_attempt_def)
  next
    case False
    then obtain c0 c1 rest where "df = c0 # c1 # rest" using two_columns[of df] by auto
    with Inr show ?thesis by (simp add: first_attempt_def clean_Inr)
  qed
qed

lemma second_attempt_Inr:
  "second_attempt h path = Inr c \<longleftrightarrow>
     (\<exists>c0 c1 rest. read_csv h Semicolon path = Inr (c0 # c1 # rest)
        \<and> c = dropna (zip (coerce h c0) (coerce h c1)))"
proof (cases "read_csv h Semicolon path")
  case (Inl e)
  then show ?thesis by (simp add: second_attempt_def)
next
  case (Inr df)
  show ?thesis
  proof (cases "length df < 2")
    case True
    then have "\<nexists>c0 c1 rest. df = c0 # c1 # rest" by auto
    with True Inr show ?thesis by (simp add: second_attempt_def clean_Inl)
  next
    case False
    then obtain c0 c1 rest where "df = c0 # c1 # rest" using two_columns[of df] by auto
    with Inr show ?thesis by (auto simp: second_attempt_def clean_Inr)
  qed
qed

lemma second_attempt_Inl:
  "(\<exists>e. second_attempt h path = Inl e) \<longleftrightarrow>
     (\<exists>e. read_csv h Semicolon path = Inl e)
     \<or> (\<exists>df. read_csv h Semicolon path = Inr df \<and> length df < 2)"
proof (cases "read_csv h Semicolon path")
  case (Inl e)
  then show ?thesis by (simp add: second_attempt_def)
next
  case (Inr df)
  show ?thesis
  proof (cases "length df < 2")
    case True
    with Inr show ?thesis by (simp add: second_attempt_def clean_Inl)
  next
    case False
    then obtain c0 c1 rest where "df = c0 # c1 # rest" using two_columns[of df] by auto
    with Inr show ?thesis by (simp add: second_attempt_def clean_Inr)
  qed
qed

section \<open>Properties of the run\<close>

lemma map_err_Inl_iff:
  "(\<exists>e. map_err f xs = Inl e) \<longleftrightarrow> (\<exists>x\<in>set xs. \<exists>e. f x = Inl e)"
proof (induction xs)
  case Nil
  then show ?case by simp
next
  case (Cons x xs)
  show ?case
  proof (cases "f x")
    case (Inl e)
    then show ?thesis by auto
  next
    case (Inr y)
    show ?thesis
    proof (cases "map_err f xs")
      case (Inl e)
      with Inr Cons show ?thesis by auto
    next
      case (Inr ys)
      with \<open>f x = Inr y\<close> Cons show ?thesis by auto
    qed
  qed
qed

lemma map_err_nth:
  "map_err f xs = Inr ys \<Longrightarrow> length ys = length xs \<and> (\<forall>k<length xs. f (xs ! k) = Inr (ys ! k))"
proof (induction xs arbitrary: ys)
  case Nil
  then show ?case by simp
next
  case (Cons x xs)
  from Cons.prems obtain y ys' where y: "f x = Inr y" and ys': "map_err f xs = Inr ys'"
    and ys: "ys = y # ys'"
    by (auto split: sum.splits)
  from Cons.IH[OF ys'] have ih: "length ys' = length xs" "\<forall>k<length xs. f (xs ! k) = Inr (ys' ! k)"
    by simp_all
  have "\<forall>k<length (x # xs). f ((x # xs) ! k) = Inr (ys ! k)"
  proof (intro allI impI)
    fix k assume "k < length (x # xs)"
    then show "f ((x # xs) ! k) = Inr (ys ! k)"
      using y ih(2) ys by (cases k) simp_all
  qed
  with ih(1) ys show ?case by simp
qed

lemma annotate_total:
  "\<exists>rows. (if truthy (target_guesses cfg)
            then annotate_guess name (map fst df) (map snd df) (peak_idx_of cfg df)
                   (the (target_guesses cfg))
            else annotate_auto name (map fst df) (map snd df) (peak_idx_of cfg df)
                   (peaks_per_curve cfg)) = Inr rows
      \<and> (df = [] \<longrightarrow> rows = [])"
proof -
  have r: "\<And>p. p \<in> set (peak_idx_of cfg df) \<Longrightarrow> p < length (map snd df)"
    using peak_idx_of_range by simp
  have e: "peak_idx_of cfg [] = []"
    using peak_idx_of_range[of _ cfg "[]"] by (cases "peak_idx_of cfg []") auto
  show ?thesis
  proof (cases "truthy (target_guesses cfg)")
    case False
    have "annotate_auto name (map fst df) (map snd df) (peak_idx_of cfg df) (peaks_per_curve cfg)
        = Inr (if 0 < length (peak_idx_of cfg df) \<and> 0 < peaks_per_curve cfg
          then map (\<lambda>k. \<lparr>file_name = name, mode = Auto, guess_cm = None,
                          peak_cm = map fst df ! (peak_idx_of cfg df ! k),
                          transmittance = map snd df ! (peak_idx_of cfg df ! k)\<rparr>)
                   (auto_order (map (\<lambda>p. 1 - map snd df ! p) (peak_idx_of cfg df)) (peaks_per_curve cfg))
          else [])"
      by (rule annotate_auto_eq[OF r]) simp_all
    moreover have "annotate_auto name [] [] [] (peaks_per_curve cfg) = Inr []"
      by (simp add: annotate_auto_def)
    ultimately show ?thesis using False e by auto
  next
    case True
    show ?thesis
    proof (cases "peak_idx_of cfg df = []")
      case True
      with \<open>truthy (target_guesses cfg)\<close> show ?thesis by (simp add: annotate_guess_empty)
    next
      case False
      then have "df \<noteq> []" using e by auto
      moreover from annotate_guess_spec[of "peak_idx_of cfg df" "map snd df" "map fst df" name
          "the (target_guesses cfg)", OF r _ False]
      obtain rows where "annotate_guess name (map fst df) (map snd df) (peak_idx_of cfg df)
          (the (target_guesses cfg)) = Inr rows" by auto
      ultimately show ?thesis using True by simp
    qed
  qed
qed

lemma process_curve_total:
  "\<exists>rows. (df = [] \<longrightarrow> rows = []) \<and>
     (\<forall>n i. process_curve cfg n (i, name, df) =
        Inr ((name, of_int (int n - int i) * offset_step cfg), rows))"
proof -
  from annotate_total[of cfg name df] obtain rows where
    rows: "(if truthy (target_guesses cfg)
            then annotate_guess name (map fst df) (map snd df) (peak_idx_of cfg df)
                   (the (target_guesses cfg))
            else annotate_auto name (map fst df) (map snd df) (peak_idx_of cfg df)
                   (peaks_per_curve cfg)) = Inr rows" and e: "df = [] \<longrightarrow> rows = []"
    by blast
  have "process_curve cfg n (i, name, df) =
        Inr ((name, of_int (int n - int i) * offset_step cfg), rows)" for n i
    unfolding process_curve_def Let_def peak_idx_of_def[symmetric] prod.case
    by (simp only: rows bind_err_Inr)
  with e show ?thesis by blast
qed

lemma plot_all_spec:
  "\<exists>res. plot_all cfg curves = Inr res \<and> length res = length curves
     \<and> (\<forall>k<length curves.
           fst (res ! k) = (fst (curves ! k),
                            of_int (int (length curves) - int (k + 1)) * offset_step cfg)
           \<and> (snd (curves ! k) = [] \<longrightarrow> snd (res ! k) = [])
           \<and> (\<forall>n i. \<exists>entry. process_curve cfg n (i, curves ! k) = Inr (entry, snd (res ! k))))"
proof -
  define n where "n = length curves"
  define zs where "zs = zip [1..<n + 1] curves"
  have lu: "length [1..<n + 1] = n" by (simp only: length_upt add_diff_cancel_right')
  have lz: "length zs = n" unfolding zs_def length_zip lu by (simp add: n_def)
  have zk: "zs ! k = (k + 1, curves ! k)" if "k < n" for k
  proof -
    have "[1..<n + 1] ! k = 1 + k" using that by (intro nth_upt) simp
    moreover have "k < length [1..<n + 1]" "k < length curves" using that lu by (simp_all add: n_def)
    ultimately show ?thesis unfolding zs_def by (simp only: nth_zip) simp
  qed
  have "\<exists>y. process_curve cfg n z = Inr y" for z
    using process_curve_total[of "snd (snd z)" cfg "fst (snd z)"]
    by (cases z) (metis prod.collapse)
  with map_err_total[of zs "process_curve cfg n"]
  obtain res where res: "map_err (process_curve cfg n) zs = Inr res" "length res = length zs"
    "\<forall>k<length zs. process_curve cfg n (zs ! k) = Inr (res ! k)" by blast
  have "fst (res ! k) = (fst (curves ! k), of_int (int n - int (k + 1)) * offset_step cfg)
        \<and> (snd (curves ! k) = [] \<longrightarrow> snd (res ! k) = [])
        \<and> (\<forall>m i. \<exists>entry. process_curve cfg m (i, curves ! k) = Inr (entry, snd (res ! k)))"
    if k: "k < n" for k
  proof -
    obtain name df where c: "curves ! k = (name, df)" by (cases "curves ! k")
    from process_curve_total[of df cfg name] obtain rows where
      rows: "df = [] \<longrightarrow> rows = []"
      "\<forall>m i. process_curve cfg m (i, name, df) =
        Inr ((name, of_int (int m - int i) * offset_step cfg), rows)" by blast
    from res(3) k lz have "process_curve cfg n (zs ! k) = Inr (res ! k)"
      by blast
    then have "process_curve cfg n (k + 1, name, df) = Inr (res ! k)"
      by (simp only: zk[OF k] c)
    with rows(2) have rk: "res ! k = ((name, of_int (int n - int (k + 1)) * offset_step cfg), rows)"
      by simp
    with rows show ?thesis by (simp add: c)
  qed
  moreover have "plot_all cfg curves = Inr res"
    using res(1) by (simp add: plot_all_def zs_def n_def Let_def)
  ultimately show ?thesis using res(2) lz unfolding n_def by auto
qed

lemma load_config_Inl_iff:
  "(\<exists>e. load_config h = Inl e) \<longleftrightarrow>
     strip (getenv_default h ''INPUT_DIR'' []) = []
     \<or> py_float h (getenv_default h ''OFFSET_STEP'' ''0.175'') = None
     \<or> py_float h (getenv_default h ''PEAK_PROMINENCE'' ''0.001'') = None
     \<or> py_int h (getenv_default h ''PEAKS_PER_CURVE'' ''5'') = None"
  by (auto simp: load_config_def Let_def split: option.splits)

lemma load_config_Inr:
  "load_config h = Inr cfg \<Longrightarrow>
     input_dir cfg = strip (getenv_default h ''INPUT_DIR'' [])
     \<and> py_float h (getenv_default h ''OFFSET_STEP'' ''0.175'') = Some (offset_step cfg)
     \<and> py_float h (getenv_default h ''PEAK_PROMINENCE'' ''0.001'') = Some (peak_prominence cfg)
     \<and> py_int h (getenv_default h ''PEAKS_PER_CURVE'' ''5'') = Some (peaks_per_curve cfg)
     \<and> target_guesses cfg = parse_guesses h (strip (getenv_default h ''TARGET_GUESSES'' []))"
  by (auto simp: load_config_def Let_def split: option.splits if_splits)

lemma sorted_files_set: "set (sorted_files h dir) = set (glob_csv h dir)"
  by (simp add: sorted_files_def)

lemma sorted_files_empty: "sorted_files h dir = [] \<longleftrightarrow> glob_csv h dir = []"
  using sorted_files_set[of h dir] by (metis set_empty)

lemma sorted_files_sorted: "sorted (map (\<lambda>p. lower (basename p)) (sorted_files h dir))"
  by (simp add: sorted_files_def)

lemma sort_values_desc_sorted: "sorted (rev (map fst (sort_values_desc df)))"
proof -
  have "sorted (map (\<lambda>(w, t). - w) (sort_values_desc df))"
    unfolding sort_values_desc_def by (rule sorted_sort_key)
  then have "sorted_wrt (\<lambda>a b. - fst a \<le> - fst b) (sort_values_desc df)"
    by (simp add: sorted_map case_prod_unfold)
  then show ?thesis by (simp add: sorted_wrt_rev sorted_wrt_map)
qed

lemma sort_values_desc_empty: "sort_values_desc df = [] \<longleftrightarrow> df = []"
  by (metis length_0_conv length_sort sort_values_desc_def)

lemma load_curve_Inl_iff:
  "(\<exists>e. load_curve h p = Inl e) \<longleftrightarrow> (\<exists>e. snd (read_csv_any h p) = Inl e)"
  by (cases "snd (read_csv_any h p)") (simp_all add: load_curve_def)

lemma load_curve_Inr:
  "load_curve h p = Inr c \<longleftrightarrow>
     (\<exists>df. snd (read_csv_any h p) = Inr df \<and> c = (basename p, sort_values_desc df))"
  by (cases "snd (read_csv_any h p)") (auto simp: load_curve_def)

lemma load_all_Inl_iff:
  "(\<exists>e. load_all h files = Inl e) \<longleftrightarrow>
     (\<exists>p\<in>set files. \<exists>e. snd (read_csv_any h p) = Inl e)"
  unfolding load_all_def map_err_Inl_iff load_curve_Inl_iff ..

lemma load_all_Inr:
  assumes "load_all h files = Inr curves"
  shows "length curves = length files
     \<and> (\<forall>k<length files. \<exists>df. snd (read_csv_any h (files ! k)) = Inr df
            \<and> curves ! k = (basename (files ! k), sort_values_desc df))"
  using map_err_nth[OF assms[unfolded load_all_def]] load_curve_Inr by metis

lemma run_Inl_iff:
  "(\<exists>e. run h = Inl e) \<longleftrightarrow>
     (\<exists>e. load_config h = Inl e)
     \<or> glob_csv h (strip (getenv_default h ''INPUT_DIR'' [])) = []
     \<or> (\<exists>p\<in>set (glob_csv h (strip (getenv_default h ''INPUT_DIR'' []))).
           \<exists>e. snd (read_csv_any h p) = Inl e)"
proof (cases "load_config h")
  case (Inl e)
  then show ?thesis by (simp add: run_def)
next
  case (Inr cfg)
  then have dir: "input_dir cfg = strip (getenv_default h ''INPUT_DIR'' [])"
    using load_config_Inr by blast
  define files where "files = sorted_files h (input_dir cfg)"
  show ?thesis
  proof (cases "files = []")
    case True
    then have "glob_csv h (strip (getenv_default h ''INPUT_DIR'' [])) = []"
      unfolding files_def dir by (simp add: sorted_files_empty)
    moreover from True Inr have "\<exists>e. run h = Inl e"
      by (simp add: run_def files_def Let_def)
    ultimately show ?thesis by blast
  next
    case ne: False
    then have g: "glob_csv h (strip (getenv_default h ''INPUT_DIR'' [])) \<noteq> []"
      unfolding files_def dir by (simp add: sorted_files_empty)
    have s: "set files = set (glob_csv h (strip (getenv_default h ''INPUT_DIR'' [])))"
      unfolding files_def dir by (rule sorted_files_set)
    show ?thesis
    proof (cases "load_all h files")
      case (Inl e)
      then have "\<exists>p\<in>set files. \<exists>e. snd (read_csv_any h p) = Inl e"
        using load_all_Inl_iff[of h files] by blast
      moreover from Inl Inr ne have "\<exists>e. run h = Inl e"
        by (simp add: run_def files_def[symmetric] Let_def)
      ultimately show ?thesis unfolding s by blast
    next
      case (Inr curves)
      then have "\<not> (\<exists>p\<in>set files. \<exists>e. snd (read_csv_any h p) = Inl e)"
        using load_all_Inl_iff[of h files] by auto
      moreover obtain res where "plot_all cfg curves = Inr res"
        using plot_all_spec[of cfg curves] by blast
      with Inr \<open>load_config h = Inr cfg\<close> ne have "\<exists>out. run h = Inr out"
        by (simp add: run_def files_def[symmetric] Let_def)
      then have "\<not> (\<exists>e. run h = Inl e)" by auto
      ultimately show ?thesis using g \<open>load_config h = Inr cfg\<close> unfolding s by auto
    qed
  qed
qed

lemma run_Inr:
  assumes cfg: "load_config h = Inr cfg"
    and ne: "sorted_files h (input_dir cfg) \<noteq> []"
    and curves: "load_all h (sorted_files h (input_dir cfg)) = Inr curves"
    and res: "plot_all cfg curves = Inr res"
  shows "run h = Inr \<lparr>plotted = map fst res, peak_rows = concat (map snd res),
                      summary = (if concat (map snd res) \<noteq> [] then Some (concat (map snd res))
                                 else None)\<rparr>"
  using assms by (simp add: run_def Let_def)

lemma attempt_fails_iff:
  "attempt_fails h s p \<longleftrightarrow>
     (\<exists>e. read_csv h s p = Inl e) \<or> (\<exists>df. read_csv h s p = Inr df \<and> length df < 2)"
  by (cases "read_csv h s p") (simp_all add: attempt_fails_def)

lemma read_csv_any_Inl_iff:
  "(\<exists>e. snd (read_csv_any h p) = Inl e) \<longleftrightarrow>
     attempt_fails h Comma p \<and> attempt_fails h Semicolon p"
proof (cases "first_attempt h p")
  case (Inr c)
  then have "\<not> (\<exists>e. first_attempt h p = Inl e)" by simp
  then have "\<not> attempt_fails h Comma p"
    unfolding attempt_fails_iff first_attempt_Inl .
  moreover from Inr have "snd (read_csv_any h p) = Inr c" by (simp add: read_csv_any_def)
  ultimately show ?thesis by simp
next
  case (Inl e)
  then have "\<exists>e. first_attempt h p = Inl e" by blast
  then have "attempt_fails h Comma p"
    unfolding attempt_fails_iff first_attempt_Inl .
  moreover from Inl have "snd (read_csv_any h p) = second_attempt h p"
    by (simp add: read_csv_any_def)
  ultimately show ?thesis
    using second_attempt_Inl[of h p] by (simp add: attempt_fails_iff)
qed

lemma plotted_offsets:
  assumes cfg: "load_config h = Inr cfg"
    and curves: "load_all h (sorted_files h (input_dir cfg)) = Inr curves"
    and ne: "curves \<noteq> []"
  shows "\<exists>out. run h = Inr out
     \<and> plotted out =
         map (\<lambda>k. (fst (curves ! k),
                     of_int (int (length curves) - int (k + 1)) * offset_step cfg))
           [0..<length curves]
     \<and> snd (last (plotted out)) = 0
     \<and> (0 \<le> offset_step cfg \<longrightarrow>
          (\<forall>k<length curves. snd (plotted out ! k) \<le> snd (plotted out ! 0)))
     \<and> map fst curves = map basename (sorted_files h (input_dir cfg))
     \<and> sorted (map (\<lambda>p. lower (basename p)) (sorted_files h (input_dir cfg)))
     \<and> (\<forall>c\<in>set curves. sorted (rev (map fst (snd c))))"
proof -
  define n where "n = length curves"
  define files where "files = sorted_files h (input_dir cfg)"
  define offs where "offs = map (\<lambda>k. (fst (curves ! k),
                     of_int (int n - int (k + 1)) * offset_step cfg)) [0..<n]"
  from load_all_Inr[OF curves] have lf: "length curves = length files"
    and ck: "\<forall>k<length files. \<exists>df. snd (read_csv_any h (files ! k)) = Inr df
            \<and> curves ! k = (basename (files ! k), sort_values_desc df)"
    unfolding files_def by blast+
  from ne lf have fne: "files \<noteq> []" by auto
  from plot_all_spec[of cfg curves] obtain res where res: "plot_all cfg curves = Inr res"
    "length res = n"
    "\<forall>k<n. fst (res ! k) = (fst (curves ! k), of_int (int n - int (k + 1)) * offset_step cfg)"
    unfolding n_def by blast
  have pl: "map fst res = offs"
  proof (rule nth_equalityI)
    show "length (map fst res) = length offs" by (simp add: offs_def res(2))
    fix k assume "k < length (map fst res)"
    then have "k < n" by (simp add: res(2))
    with res(3) show "map fst res ! k = offs ! k" by (simp add: offs_def res(2))
  qed
  define out where "out = \<lparr>plotted = map fst res, peak_rows = concat (map snd res),
                      summary = (if concat (map snd res) \<noteq> [] then Some (concat (map snd res))
                                 else None)\<rparr>"
  have run: "run h = Inr out"
    unfolding out_def using cfg fne curves res(1) unfolding files_def by (rule run_Inr)
  have p: "plotted out = offs" by (simp add: out_def pl)
  have npos: "0 < n" using ne by (simp add: n_def)
  have ok: "offs ! k = (fst (curves ! k), of_int (int n - int (k + 1)) * offset_step cfg)"
    if "k < n" for k using that by (simp add: offs_def)
  have lo: "length offs = n" by (simp add: offs_def)
  have last0: "snd (last offs) = 0"
  proof -
    have "offs \<noteq> []" using lo npos by auto
    then have "last offs = offs ! (n - 1)" by (simp add: last_conv_nth lo)
    also have "\<dots> = (fst (curves ! (n - 1)), of_int (int n - int (n - 1 + 1)) * offset_step cfg)"
      using npos by (intro ok) simp
    finally show ?thesis using npos by simp
  qed
  have high: "snd (offs ! k) \<le> snd (offs ! 0)" if "0 \<le> offset_step cfg" "k < n" for k
  proof -
    have "(of_int (int n - int (k + 1)) :: real) \<le> of_int (int n - int (0 + 1))" by simp
    then have "of_int (int n - int (k + 1)) * offset_step cfg
        \<le> of_int (int n - int (0 + 1)) * offset_step cfg"
      using that(1) by (rule mult_right_mono)
    then show ?thesis using ok[OF that(2)] ok[OF npos] by simp
  qed
  have names: "map fst curves = map basename files"
  proof (rule nth_equalityI)
    show "length (map fst curves) = length (map basename files)" by (simp add: lf)
    fix k assume "k < length (map fst curves)"
    then have k: "k < length files" by (simp add: lf)
    with ck obtain df where "curves ! k = (basename (files ! k), sort_values_desc df)" by blast
    with k show "map fst curves ! k = map basename files ! k" by (simp add: lf)
  qed
  have desc: "\<forall>c\<in>set curves. sorted (rev (map fst (snd c)))"
  proof
    fix c assume "c \<in> set curves"
    then obtain k where k: "k < length curves" "c = curves ! k" by (auto simp: in_set_conv_nth)
    with ck lf obtain df where "curves ! k = (basename (files ! k), sort_values_desc df)" by auto
    with k show "sorted (rev (map fst (snd c)))" by (simp add: sort_values_desc_sorted)
  qed
  have srt: "sorted (map (\<lambda>p. lower (basename p)) files)"
    unfolding files_def by (rule sorted_files_sorted)
  from run p last0 high names desc srt show ?thesis
    unfolding offs_def n_def files_def by auto
qed

section \<open>Properties of the configuration\<close>

lemma re_split_from_delims:
  "\<forall>c\<in>set s. is_delim c \<Longrightarrow> filter (\<lambda>tok. tok \<noteq> []) (re_split_from [] s) = []"
proof (cases s)
  case Nil
  then show ?thesis by simp
next
  case (Cons c cs)
  assume a: "\<forall>c\<in>set s. is_delim c"
  with Cons have d: "dropWhile is_delim cs = []" and c: "is_delim c" by simp_all
  have "re_split_from [] (c # cs) = rev [] # re_split_from [] (dropWhile is_delim cs)"
    using c by simp
  then have "re_split_from [] (c # cs) = [[], []]" by (simp only: d re_split_from.simps rev.simps)
  then show ?thesis by (simp add: Cons)
qed

lemma re_split_from_no_delim:
  "\<forall>c\<in>set cur. \<not> is_delim c \<Longrightarrow>
   \<forall>tok\<in>set (re_split_from cur s). \<forall>c\<in>set tok. \<not> is_delim c"
proof (induction cur s rule: re_split_from.induct)
  case (1 cur)
  then show ?case by simp
next
  case (2 cur c cs)
  show ?case
  proof (cases "is_delim c")
    case True
    have "\<forall>tok\<in>set (re_split_from [] (dropWhile is_delim cs)). \<forall>c\<in>set tok. \<not> is_delim c"
      using "2.IH"(1)[OF True] by simp
    moreover have "re_split_from cur (c # cs) = rev cur # re_split_from [] (dropWhile is_delim cs)"
      using True by simp
    moreover have "\<forall>c\<in>set (rev cur). \<not> is_delim c" using "2.prems" by simp
    ultimately show ?thesis by (simp only: set_simps ball_simps)
  next
    case False
    have "\<forall>x\<in>set (c # cur). \<not> is_delim x" using False "2.prems" by simp
    then have "\<forall>tok\<in>set (re_split_from (c # cur) cs). \<forall>c\<in>set tok. \<not> is_delim c"
      by (rule "2.IH"(2)[OF False])
    moreover have "re_split_from cur (c # cs) = re_split_from (c # cur) cs"
      using False by simp
    ultimately show ?thesis by (simp only:)
  qed
qed

lemma set_strip: "set (strip s) \<subseteq> set s"
proof -
  have "set (dropWhile is_space (rev (dropWhile is_space s))) \<subseteq> set (rev (dropWhile is_space s))"
    by (meson set_dropWhileD subsetI)
  moreover have "set (dropWhile is_space s) \<subseteq> set s" by (meson set_dropWhileD subsetI)
  ultimately show ?thesis by (auto simp: strip_def)
qed

lemma parse_guesses_eq:
  "parse_guesses h s =
     (let gs = List.map_filter (py_float h) (filter (\<lambda>tok. tok \<noteq> []) (re_split s))
      in if gs = [] then None else Some gs)"
  by (cases s) (simp_all add: parse_guesses_def re_split_def Let_def List.map_filter_simps)

lemma map_filter_Nil_iff:
  "List.map_filter f xs = [] \<longleftrightarrow> (\<forall>x\<in>set xs. f x = None)"
  by (induction xs) (auto simp: List.map_filter_simps split: option.splits)

lemma map_filter_as_map:
  "List.map_filter f xs = map (\<lambda>x. the (f x)) (filter (\<lambda>x. f x \<noteq> None) xs)"
  by (induction xs) (auto simp: List.map_filter_simps split: option.splits)

lemma parse_guesses_None_iff:
  "parse_guesses h s = None \<longleftrightarrow> (\<forall>tok\<in>set (re_split s). tok \<noteq> [] \<longrightarrow> py_float h tok = None)"
  unfolding parse_guesses_eq Let_def by (auto simp: map_filter_Nil_iff)

lemma parse_guesses_Some:
  "parse_guesses h s = Some gs \<Longrightarrow>
     gs \<noteq> [] \<and> gs = map (\<lambda>tok. the (py_float h tok))
            (filter (\<lambda>tok. tok \<noteq> [] \<and> py_float h tok \<noteq> None) (re_split s))"
  unfolding parse_guesses_eq Let_def
  by (auto simp: map_filter_as_map split: if_splits)

lemma parse_guesses_delims:
  "\<forall>c\<in>set s. is_delim c \<Longrightarrow> parse_guesses h s = None"
  unfolding parse_guesses_eq Let_def re_split_def
  by (simp add: re_split_from_delims List.map_filter_simps)

lemma parse_guesses_getenv [simp]:
  "parse_guesses (h\<lparr>getenv := g\<rparr>) s = parse_guesses h s"
  by (simp add: parse_guesses_def)

lemma load_config_guesses_unset:
  "load_config (h\<lparr>getenv := (getenv h)(''TARGET_GUESSES'' := None)\<rparr>) =
     (case load_config h of Inl e \<Rightarrow> Inl e | Inr cfg \<Rightarrow> Inr (cfg\<lparr>target_guesses := None\<rparr>))"
  by (simp add: load_config_def getenv_default_def Let_def parse_guesses_def strip_def
      split: option.splits)

lemma load_config_guesses_set:
  "load_config (h\<lparr>getenv := (getenv h)(''TARGET_GUESSES'' \<mapsto> s)\<rparr>) =
     (case load_config h of Inl e \<Rightarrow> Inl e
      | Inr cfg \<Rightarrow> Inr (cfg\<lparr>target_guesses := parse_guesses h (strip s)\<rparr>))"
  by (simp add: load_config_def getenv_default_def Let_def split: option.splits)

lemma clean_getenv [simp]: "clean (h\<lparr>getenv := g\<rparr>) df = clean h df"
proof -
  have "coerce (h\<lparr>getenv := g\<rparr>) = coerce h" by (rule ext) (simp add: coerce_def)
  then show ?thesis by (simp add: clean_def cong: list.case_cong)
qed

lemma read_csv_any_getenv [simp]:
  "read_csv_any (h\<lparr>getenv := g\<rparr>) p = read_csv_any h p"
proof -
  have "first_attempt (h\<lparr>getenv := g\<rparr>) p = first_attempt h p"
    by (cases "read_csv h Comma p") (simp_all add: first_attempt_def)
  moreover have "second_attempt (h\<lparr>getenv := g\<rparr>) p = second_attempt h p"
    by (cases "read_csv h Semicolon p") (simp_all add: second_attempt_def)
  ultimately show ?thesis by (simp add: read_csv_any_def cong: sum.case_cong)
qed

lemma load_all_getenv [simp]: "load_all (h\<lparr>getenv := g\<rparr>) files = load_all h files"
proof -
  have "load_curve (h\<lparr>getenv := g\<rparr>) = load_curve h"
    by (rule ext) (simp add: load_curve_def)
  then show ?thesis by (simp add: load_all_def)
qed

lemma sorted_files_getenv [simp]: "sorted_files (h\<lparr>getenv := g\<rparr>) dir = sorted_files h dir"
  by (simp add: sorted_files_def)

lemma run_guesses:
  assumes "parse_guesses h (strip s) = None"
  shows "run (h\<lparr>getenv := (getenv h)(''TARGET_GUESSES'' \<mapsto> s)\<rparr>) =
         run (h\<lparr>getenv := (getenv h)(''TARGET_GUESSES'' := None)\<rparr>)"
  unfolding run_def load_config_guesses_set load_config_guesses_unset assms
  by (simp only: sorted_files_getenv load_all_getenv)

section \<open>The claims\<close>

subsection \<open>C9: the minima detector\<close>

text \<open>
  C9. For every curve and prominence threshold, the minima detector returns a
  strictly increasing sequence of sample indices; each of them lies on a flat top
  of the inverted signal \<open>1 - transmittance\<close> (so it is a local maximum of it: no
  neighbour is higher) and has prominence at least the threshold. For a monotonic
  curve, a flat one included, the result is empty; the detector is a total function,
  so the empty list is an ordinary result.
\<close>

theorem find_minima_spec:
  "sorted_wrt (<) (find_minima wn tr prom)
   \<and> (\<forall>p\<in>set (find_minima wn tr prom).
        p < length tr
        \<and> (\<exists>l r. l \<le> p \<and> p \<le> r \<and> flat_top (map (\<lambda>t. 1 - t) tr) l r)
        \<and> map (\<lambda>t. 1 - t) tr ! (p - 1) \<le> map (\<lambda>t. 1 - t) tr ! p
        \<and> map (\<lambda>t. 1 - t) tr ! (p + 1) \<le> map (\<lambda>t. 1 - t) tr ! p
        \<and> prom \<le> peak_prominence_at (map (\<lambda>t. 1 - t) tr) p)
   \<and> (sorted tr \<or> sorted (rev tr) \<longrightarrow> find_minima wn tr prom = [])"
proof (intro conjI ballI impI)
  define x where "x = map (\<lambda>t. 1 - t) tr"
  have fm: "find_minima wn tr prom = find_peaks x prom"
    by (simp add: find_minima_def x_def)
  show "sorted_wrt (<) (find_minima wn tr prom)"
    unfolding fm by (rule find_peaks_sorted)
  {
    fix p assume "p \<in> set (find_minima wn tr prom)"
    then have mem: "p \<in> set (find_peaks x prom)" by (simp add: fm)
    then show "p < length tr" using find_peaks_range[of p x prom] by (simp add: x_def)
    from mem have "p \<in> set (local_maxima_1d x)" using find_peaks_subset by blast
    then obtain l r where ft: "flat_top x l r" and p: "p = (l + r) div 2"
      using local_maxima_1d_flat by blast
    have lp: "l \<le> p" and pr: "p \<le> r" using flat_top_mid(1,2)[OF ft] p by simp_all
    from ft lp pr show "\<exists>l r. l \<le> p \<and> p \<le> r \<and> flat_top (map (\<lambda>t. 1 - t) tr) l r"
      unfolding x_def by blast
    from flat_top_weak_max[OF ft lp pr]
    show "map (\<lambda>t. 1 - t) tr ! (p - 1) \<le> map (\<lambda>t. 1 - t) tr ! p"
      and "map (\<lambda>t. 1 - t) tr ! (p + 1) \<le> map (\<lambda>t. 1 - t) tr ! p"
      unfolding x_def by blast+
    from mem show "prom \<le> peak_prominence_at (map (\<lambda>t. 1 - t) tr) p"
      by (simp add: find_peaks_def x_def)
  }
  assume "sorted tr \<or> sorted (rev tr)"
  then have "sorted x \<or> sorted (rev x)" unfolding x_def using sorted_inverted by blast
  then have "local_maxima_1d x = []" by (rule local_maxima_1d_monotone)
  then show "find_minima wn tr prom = []" by (simp add: fm find_peaks_def)
qed

theorem find_minima_spec_witness:
  "find_minima [4000, 3500, 3000] [0.95, 0.40, 0.92] 0.01 = [1]
   \<and> (1::nat) < length [0.95, 0.40, 0.92 :: real]
   \<and> 0.01 \<le> peak_prominence_at (map (\<lambda>t. 1 - t) [0.95, 0.40, 0.92]) 1
   \<and> sorted [0.40, 0.92, 0.95 :: real]
   \<and> find_minima [4000, 3500, 3000] [0.40, 0.92, 0.95] 0.01 = []"
proof -
  have e: "find_minima [4000, 3500, 3000] [0.95, 0.40, 0.92] 0.01 = [1]"
    by code_simp
  have "\<forall>p\<in>set (find_minima [4000, 3500, 3000] [0.95, 0.40, 0.92] 0.01).
          p < length [0.95, 0.40, 0.92 :: real]
          \<and> 0.01 \<le> peak_prominence_at (map (\<lambda>t. 1 - t) [0.95, 0.40, 0.92]) p"
    using find_minima_spec[of "[4000, 3500, 3000]" "[0.95, 0.40, 0.92]" "0.01"] by blast
  then have a: "(1::nat) < length [0.95, 0.40, 0.92 :: real]
          \<and> 0.01 \<le> peak_prominence_at (map (\<lambda>t. 1 - t) [0.95, 0.40, 0.92]) 1"
    unfolding e by simp
  have s: "sorted [0.40, 0.92, 0.95 :: real]" by simp
  then have "find_minima [4000, 3500, 3000] [0.40, 0.92, 0.95] 0.01 = []"
    using find_minima_spec[of "[4000, 3500, 3000]" "[0.40, 0.92, 0.95]" "0.01"] by blast
  with e a s show ?thesis by blast
qed

subsection \<open>C2: guess mode selects a nearest detected minimum\<close>

text \<open>
  C2. In guess mode the loop body never fails. For a curve with at least one detected
  minimum it writes one row per configured guess, in order, and the row for a guess
  \<open>g\<close> is that of a detected minimum whose wavenumber is at least as close to
  \<open>g\<close> as that of every other detected minimum of the curve. For a curve with no
  detected minimum it writes no row.
\<close>

theorem guess_mode_nearest:
  assumes "truthy (target_guesses cfg)"
  shows "\<exists>rows.
     process_curve cfg n (i, name, df) =
       Inr ((name, of_int (int n - int i) * offset_step cfg), rows)
     \<and> (peak_idx_of cfg df = [] \<longrightarrow> rows = [])
     \<and> (peak_idx_of cfg df \<noteq> [] \<longrightarrow>
          length rows = length (the (target_guesses cfg))
          \<and> (\<forall>k<length (the (target_guesses cfg)). \<exists>p\<in>set (peak_idx_of cfg df).
                rows ! k = guess_record name df (the (target_guesses cfg) ! k) p
                \<and> (\<forall>q\<in>set (peak_idx_of cfg df).
                      \<bar>fst (df ! p) - the (target_guesses cfg) ! k\<bar>
                        \<le> \<bar>fst (df ! q) - the (target_guesses cfg) ! k\<bar>)))"
proof -
  define peaks where "peaks = peak_idx_of cfg df"
  define gs where "gs = the (target_guesses cfg)"
  have pc: "process_curve cfg n (i, name, df) =
      bind_err (annotate_guess name (map fst df) (map snd df) peaks gs)
        (\<lambda>rows. Inr ((name, of_int (int n - int i) * offset_step cfg), rows))"
    using assms by (simp add: process_curve_def Let_def peaks_def peak_idx_of_def gs_def)
  show ?thesis
  proof (cases "peaks = []")
    case True
    then have "process_curve cfg n (i, name, df) =
       Inr ((name, of_int (int n - int i) * offset_step cfg), [])"
      by (simp add: pc annotate_guess_empty)
    with True show ?thesis unfolding peaks_def by blast
  next
    case False
    have r: "\<And>p. p \<in> set peaks \<Longrightarrow> p < length (map snd df)"
      unfolding peaks_def using peak_idx_of_range by simp
    from annotate_guess_spec[of peaks "map snd df" "map fst df" name gs, OF r _ False]
    obtain rows where rows: "annotate_guess name (map fst df) (map snd df) peaks gs = Inr rows"
      "length rows = length gs"
      "\<forall>k<length gs. \<exists>p\<in>set peaks.
           rows ! k = \<lparr>file_name = name, mode = Guess, guess_cm = Some (gs ! k),
                       peak_cm = map fst df ! p, transmittance = map snd df ! p\<rparr>
           \<and> (\<forall>q\<in>set peaks. \<bar>map fst df ! p - gs ! k\<bar> \<le> \<bar>map fst df ! q - gs ! k\<bar>)"
      by auto
    have conv: "map fst df ! p = fst (df ! p)" "map snd df ! p = snd (df ! p)"
      if "p \<in> set peaks" for p
      using r[OF that] by simp_all
    have "\<forall>k<length gs. \<exists>p\<in>set peaks.
           rows ! k = guess_record name df (gs ! k) p
           \<and> (\<forall>q\<in>set peaks. \<bar>fst (df ! p) - gs ! k\<bar> \<le> \<bar>fst (df ! q) - gs ! k\<bar>)"
    proof (intro allI impI)
      fix k assume "k < length gs"
      with rows(3) obtain p where p: "p \<in> set peaks"
        "rows ! k = \<lparr>file_name = name, mode = Guess, guess_cm = Some (gs ! k),
                       peak_cm = map fst df ! p, transmittance = map snd df ! p\<rparr>"
        "\<forall>q\<in>set peaks. \<bar>map fst df ! p - gs ! k\<bar> \<le> \<bar>map fst df ! q - gs ! k\<bar>"
        by blast
      have "rows ! k = guess_record name df (gs ! k) p"
        using p(1,2) by (simp add: guess_record_def conv)
      moreover have "\<forall>q\<in>set peaks. \<bar>fst (df ! p) - gs ! k\<bar> \<le> \<bar>fst (df ! q) - gs ! k\<bar>"
      proof
        fix q assume q: "q \<in> set peaks"
        with p(3) have "\<bar>map fst df ! p - gs ! k\<bar> \<le> \<bar>map fst df ! q - gs ! k\<bar>" by blast
        then show "\<bar>fst (df ! p) - gs ! k\<bar> \<le> \<bar>fst (df ! q) - gs ! k\<bar>"
          by (simp only: conv[OF p(1)] conv[OF q])
      qed
      ultimately show "\<exists>p\<in>set peaks.
           rows ! k = guess_record name df (gs ! k) p
           \<and> (\<forall>q\<in>set peaks. \<bar>fst (df ! p) - gs ! k\<bar> \<le> \<bar>fst (df ! q) - gs ! k\<bar>)"
        using p(1) by blast
    qed
    moreover have "process_curve cfg n (i, name, df) =
       Inr ((name, of_int (int n - int i) * offset_step cfg), rows)"
      by (simp add: pc rows(1))
    ultimately show ?thesis using False rows(2) unfolding peaks_def gs_def by blast
  qed
qed

theorem guess_mode_nearest_witness:
  "truthy (target_guesses (example_config 5 (Some [6.2, 1.5])))
   \<and> peak_idx_of (example_config 5 (Some [6.2, 1.5])) three_dips = [1, 3, 5]
   \<and> (\<exists>rows. process_curve (example_config 5 (Some [6.2, 1.5])) 1 (1, ''a.csv'', three_dips) =
          Inr ((''a.csv'', of_int (int 1 - int 1) * offset_step (example_config 5 (Some [6.2, 1.5]))), rows)
        \<and> length rows = 2)
   \<and> process_curve (example_config 5 (Some [6.2, 1.5])) 1 (1, ''a.csv'', three_dips) =
        Inr ((''a.csv'', 0),
             [guess_record ''a.csv'' three_dips 6.2 1, guess_record ''a.csv'' three_dips 1.5 5])
   \<and> peak_idx_of (example_config 5 (Some [6.2, 1.5])) flat_curve = []
   \<and> process_curve (example_config 5 (Some [6.2, 1.5])) 1 (1, ''b.csv'', flat_curve) =
        Inr ((''b.csv'', of_int (int 1 - int 1) * offset_step (example_config 5 (Some [6.2, 1.5]))), [])"
proof -
  let ?c = "example_config 5 (Some [6.2, 1.5])"
  have a: "truthy (target_guesses ?c)" by code_simp
  have p: "peak_idx_of ?c three_dips = [1, 3, 5]" by code_simp
  have f: "peak_idx_of ?c flat_curve = []" by code_simp
  have g: "length (the (target_guesses ?c)) = 2" by (simp add: example_config_def)
  have e: "process_curve ?c 1 (1, ''a.csv'', three_dips) =
        Inr ((''a.csv'', 0),
             [guess_record ''a.csv'' three_dips 6.2 1, guess_record ''a.csv'' three_dips 1.5 5])"
    by code_simp
  from guess_mode_nearest[OF a, of 1 1 "''a.csv''" three_dips]
  have "\<exists>rows. process_curve ?c 1 (1, ''a.csv'', three_dips) =
          Inr ((''a.csv'', of_int (int 1 - int 1) * offset_step ?c), rows)
        \<and> length rows = 2"
    unfolding p g by auto
  moreover from guess_mode_nearest[OF a, of 1 1 "''b.csv''" flat_curve]
  have "process_curve ?c 1 (1, ''b.csv'', flat_curve) =
        Inr ((''b.csv'', of_int (int 1 - int 1) * offset_step ?c), [])"
    unfolding f by auto
  ultimately show ?thesis using a p f e by blast
qed

subsection \<open>C3: auto mode writes the deepest minima, deepest first\<close>

text \<open>
  C3. In auto mode the loop body never fails; the number of rows it writes for a curve
  is \<open>min(PEAKS_PER_CURVE, number of detected minima)\<close> for a positive count, and zero
  when the count is not positive or no minimum was detected; the depths
  \<open>1 - transmittance\<close> of the rows do not increase along the rows; every row is
  that of a detected minimum.
\<close>

theorem auto_mode_count_and_order:
  assumes "\<not> truthy (target_guesses cfg)"
  shows "\<exists>rows.
     process_curve cfg n (i, name, df) =
       Inr ((name, of_int (int n - int i) * offset_step cfg), rows)
     \<and> int (length rows) = max 0 (min (peaks_per_curve cfg) (int (length (peak_idx_of cfg df))))
     \<and> (0 < peaks_per_curve cfg \<longrightarrow>
          length rows = min (nat (peaks_per_curve cfg)) (length (peak_idx_of cfg df)))
     \<and> sorted_wrt (\<lambda>r s. 1 - transmittance s \<le> 1 - transmittance r) rows
     \<and> (peaks_per_curve cfg \<le> 0 \<or> peak_idx_of cfg df = [] \<longrightarrow> rows = [])
     \<and> (\<forall>r\<in>set rows. \<exists>p\<in>set (peak_idx_of cfg df). r = auto_record name df p)"
proof -
  define rows where "rows = map (auto_record name df) (selection cfg df)"
  have len: "length rows = min (nat (peaks_per_curve cfg)) (length (peak_idx_of cfg df))"
    by (simp add: rows_def selection_length)
  have srt: "sorted_wrt (\<lambda>r s. 1 - transmittance s \<le> 1 - transmittance r) rows"
  proof -
    have "1 - transmittance (rows ! b) \<le> 1 - transmittance (rows ! a)"
      if "a < b" "b < length rows" for a b
    proof -
      from that have "b < length (selection cfg df)" by (simp add: rows_def)
      from selection_lex[OF that(1) this] that show ?thesis
        by (auto simp: rows_def auto_record_def)
    qed
    then show ?thesis by (simp add: sorted_wrt_iff_nth_less)
  qed
  have mem: "\<forall>r\<in>set rows. \<exists>p\<in>set (peak_idx_of cfg df). r = auto_record name df p"
    using selection_set[of cfg df] by (auto simp: rows_def)
  have "process_curve cfg n (i, name, df) =
       Inr ((name, of_int (int n - int i) * offset_step cfg), rows)"
    unfolding rows_def using assms by (rule process_curve_auto)
  moreover have "int (length rows) = max 0 (min (peaks_per_curve cfg) (int (length (peak_idx_of cfg df))))"
    using len by linarith
  moreover have "peaks_per_curve cfg \<le> 0 \<or> peak_idx_of cfg df = [] \<longrightarrow> rows = []"
    using len by auto
  ultimately show ?thesis using len srt mem by blast
qed

theorem auto_mode_count_and_order_witness:
  "\<not> truthy (target_guesses (example_config 2 None))
   \<and> length (peak_idx_of (example_config 2 None) three_dips) = 3
   \<and> (\<exists>rows. process_curve (example_config 2 None) 1 (1, ''a.csv'', three_dips) =
          Inr ((''a.csv'', of_int (int 1 - int 1) * offset_step (example_config 2 None)), rows)
        \<and> length rows = 2
        \<and> sorted_wrt (\<lambda>r s. 1 - transmittance s \<le> 1 - transmittance r) rows)
   \<and> \<not> truthy (target_guesses (example_config 0 None))
   \<and> process_curve (example_config 0 None) 1 (1, ''a.csv'', three_dips) =
        Inr ((''a.csv'', of_int (int 1 - int 1) * offset_step (example_config 0 None)), [])"
proof -
  have a: "\<not> truthy (target_guesses (example_config 2 None))" by code_simp
  have b: "\<not> truthy (target_guesses (example_config 0 None))" by code_simp
  have l: "length (peak_idx_of (example_config 2 None) three_dips) = 3" by code_simp
  have p2: "peaks_per_curve (example_config 2 None) = 2"
    and p0: "peaks_per_curve (example_config 0 None) = 0"
    by (simp_all add: example_config_def)
  from auto_mode_count_and_order[OF a, of 1 1 "''a.csv''" three_dips]
  have "\<exists>rows. process_curve (example_config 2 None) 1 (1, ''a.csv'', three_dips) =
          Inr ((''a.csv'', of_int (int 1 - int 1) * offset_step (example_config 2 None)), rows)
        \<and> length rows = 2
        \<and> sorted_wrt (\<lambda>r s. 1 - transmittance s \<le> 1 - transmittance r) rows"
    unfolding l p2 by auto
  moreover from auto_mode_count_and_order[OF b, of 1 1 "''a.csv''" three_dips]
  have "process_curve (example_config 0 None) 1 (1, ''a.csv'', three_dips) =
        Inr ((''a.csv'', of_int (int 1 - int 1) * offset_step (example_config 0 None)), [])"
    unfolding p0 by auto
  ultimately show ?thesis using a b l by blast
qed

subsection \<open>C4: the CSV loader\<close>

text \<open>
  C4. The loader reads with the comma delimiter first, and reads again with the
  semicolon exactly when the first read raised or gave fewer than two columns. The
  curve it returns comes from the first two columns of the frame of its last read:
  the cells have their commas replaced by points and are converted, a cell that does
  not convert is missing, and the rows without a missing value are kept, in order.
  It fails exactly when the second read too raises or gives fewer than two columns.
\<close>

theorem read_csv_any_spec:
  "hd (fst (read_csv_any h path)) = Comma
   \<and> fst (read_csv_any h path) =
       (if (\<exists>e. read_csv h Comma path = Inl e)
           \<or> (\<exists>df. read_csv h Comma path = Inr df \<and> length df < 2)
        then [Comma, Semicolon] else [Comma])
   \<and> (\<forall>c. snd (read_csv_any h path) = Inr c \<longrightarrow>
         (\<exists>c0 c1 rest.
            read_csv h (last (fst (read_csv_any h path))) path = Inr (c0 # c1 # rest)
            \<and> c = map (\<lambda>(a, b). (the (to_numeric h (replace_comma a)),
                                  the (to_numeric h (replace_comma b))))
                    (filter (\<lambda>(a, b). to_numeric h (replace_comma a) \<noteq> None
                                      \<and> to_numeric h (replace_comma b) \<noteq> None) (zip c0 c1))))
   \<and> ((\<exists>e. snd (read_csv_any h path) = Inl e) \<longleftrightarrow>
        ((\<exists>e. read_csv h Comma path = Inl e)
           \<or> (\<exists>df. read_csv h Comma path = Inr df \<and> length df < 2))
        \<and> ((\<exists>e. read_csv h Semicolon path = Inl e)
           \<or> (\<exists>df. read_csv h Semicolon path = Inr df \<and> length df < 2)))"
proof (cases "first_attempt h path")
  case (Inr c)
  then have any: "read_csv_any h path = ([Comma], Inr c)" by (simp add: read_csv_any_def)
  from Inr have good: "\<not> ((\<exists>e. read_csv h Comma path = Inl e)
           \<or> (\<exists>df. read_csv h Comma path = Inr df \<and> length df < 2))"
    using first_attempt_Inl[of h path] by simp
  from Inr obtain c0 c1 rest where "read_csv h Comma path = Inr (c0 # c1 # rest)"
    "c = dropna (zip (coerce h c0) (coerce h c1))"
    using first_attempt_Inr[of h path c] by blast
  then have "\<exists>c0 c1 rest. read_csv h Comma path = Inr (c0 # c1 # rest)
      \<and> c = map (\<lambda>(a, b). (the (to_numeric h (replace_comma a)),
                            the (to_numeric h (replace_comma b))))
              (filter (\<lambda>(a, b). to_numeric h (replace_comma a) \<noteq> None
                                \<and> to_numeric h (replace_comma b) \<noteq> None) (zip c0 c1))"
    by (simp only: dropna_coerce) blast
  with good show ?thesis by (simp add: any)
next
  case (Inl e)
  then have any: "read_csv_any h path = ([Comma, Semicolon], second_attempt h path)"
    by (simp add: read_csv_any_def)
  from Inl have bad: "(\<exists>e. read_csv h Comma path = Inl e)
           \<or> (\<exists>df. read_csv h Comma path = Inr df \<and> length df < 2)"
    using first_attempt_Inl[of h path] by blast
  have ok: "\<exists>c0 c1 rest. read_csv h Semicolon path = Inr (c0 # c1 # rest)
      \<and> c = map (\<lambda>(a, b). (the (to_numeric h (replace_comma a)),
                            the (to_numeric h (replace_comma b))))
              (filter (\<lambda>(a, b). to_numeric h (replace_comma a) \<noteq> None
                                \<and> to_numeric h (replace_comma b) \<noteq> None) (zip c0 c1))"
    if "second_attempt h path = Inr c" for c
  proof -
    from that obtain c0 c1 rest where "read_csv h Semicolon path = Inr (c0 # c1 # rest)"
      "c = dropna (zip (coerce h c0) (coerce h c1))"
      using second_attempt_Inr[of h path c] by blast
    then show ?thesis by (simp only: dropna_coerce) blast
  qed
  from bad ok second_attempt_Inl[of h path] show ?thesis by (simp add: any)
qed

theorem read_csv_any_spec_witness:
  "read_csv_any (example_host [] []) ''data/b.csv'' =
     ([Comma], Inr [(4000, 0.95), (3500, 0.40), (3000, 0.92), (2500, 0.97)])
   \<and> read_csv_any (example_host [] []) ''data/sub/A.csv'' =
     ([Comma, Semicolon], Inr [(1000, 0.9), (2000, 0.3), (3000, 0.8)])
   \<and> read_csv_any (example_host [] []) ''data/bad.csv'' =
     ([Comma, Semicolon], Inl (ReadError ''Error tokenizing data''))
   \<and> (\<exists>c0 c1 rest. read_csv (example_host [] []) Semicolon ''data/sub/A.csv'' = Inr (c0 # c1 # rest))
   \<and> (\<exists>e. read_csv (example_host [] []) Semicolon ''data/bad.csv'' = Inl e)"
proof -
  have b: "read_csv_any (example_host [] []) ''data/b.csv'' =
     ([Comma], Inr [(4000, 0.95), (3500, 0.40), (3000, 0.92), (2500, 0.97)])"
    by code_simp
  have a: "read_csv_any (example_host [] []) ''data/sub/A.csv'' =
     ([Comma, Semicolon], Inr [(1000, 0.9), (2000, 0.3), (3000, 0.8)])"
    by code_simp
  have x: "read_csv_any (example_host [] []) ''data/bad.csv'' =
     ([Comma, Semicolon], Inl (ReadError ''Error tokenizing data''))"
    by code_simp
  from read_csv_any_spec[of "example_host [] []" "''data/sub/A.csv''"]
  have "\<exists>c0 c1 rest. read_csv (example_host [] []) Semicolon ''data/sub/A.csv'' = Inr (c0 # c1 # rest)"
    unfolding a by auto
  moreover from read_csv_any_spec[of "example_host [] []" "''data/bad.csv''"]
  have "(\<exists>e. read_csv (example_host [] []) Semicolon ''data/bad.csv'' = Inl e)
     \<or> (\<exists>df. read_csv (example_host [] []) Semicolon ''data/bad.csv'' = Inr df \<and> length df < 2)"
    unfolding x by auto
  moreover have "\<nexists>df. read_csv (example_host [] []) Semicolon ''data/bad.csv'' = Inr df"
    by (simp add: example_host_def example_read_csv_def)
  ultimately show ?thesis using a b x by blast
qed

subsection \<open>C5: when the run halts\<close>

text \<open>
  C5, as the code has it. The run halts with an error exactly when \<open>INPUT_DIR\<close> is
  unset or blank, or one of \<open>OFFSET_STEP\<close>, \<open>PEAK_PROMINENCE\<close> and
  \<open>PEAKS_PER_CURVE\<close> does not convert (\<open>float\<close> and \<open>int\<close> raise), or no CSV
  file is found, or some file fails under both delimiter attempts. A file that fails
  under both halts the whole run: no file is skipped. A run that halts writes no
  summary. The claim that the run halts in three cases only fails: with
  \<open>PEAKS_PER_CURVE=abc\<close>, a directory that is set, a file that is found and parses,
  the run halts with the \<open>ValueError\<close> of \<open>int\<close>.
\<close>

theorem run_halts_iff:
  "((\<exists>e. run h = Inl e) \<longleftrightarrow>
       strip (getenv_default h ''INPUT_DIR'' []) = []
     \<or> py_float h (getenv_default h ''OFFSET_STEP'' ''0.175'') = None
     \<or> py_float h (getenv_default h ''PEAK_PROMINENCE'' ''0.001'') = None
     \<or> py_int h (getenv_default h ''PEAKS_PER_CURVE'' ''5'') = None
     \<or> glob_csv h (strip (getenv_default h ''INPUT_DIR'' [])) = []
     \<or> (\<exists>p\<in>set (glob_csv h (strip (getenv_default h ''INPUT_DIR'' []))).
           attempt_fails h Comma p \<and> attempt_fails h Semicolon p))
   \<and> (strip (getenv_default h ''INPUT_DIR'' []) = [] \<longrightarrow>
        run h = Inl (RuntimeError ''INPUT_DIR is not set in .env''))
   \<and> (\<forall>e. run h = Inl e \<longrightarrow> summary_written h = None)"
proof (intro conjI allI impI)
  show "(\<exists>e. run h = Inl e) \<longleftrightarrow>
       strip (getenv_default h ''INPUT_DIR'' []) = []
     \<or> py_float h (getenv_default h ''OFFSET_STEP'' ''0.175'') = None
     \<or> py_float h (getenv_default h ''PEAK_PROMINENCE'' ''0.001'') = None
     \<or> py_int h (getenv_default h ''PEAKS_PER_CURVE'' ''5'') = None
     \<or> glob_csv h (strip (getenv_default h ''INPUT_DIR'' [])) = []
     \<or> (\<exists>p\<in>set (glob_csv h (strip (getenv_default h ''INPUT_DIR'' []))).
           attempt_fails h Comma p \<and> attempt_fails h Semicolon p)"
    unfolding run_Inl_iff load_config_Inl_iff read_csv_any_Inl_iff by (simp only: disj_assoc)
  show "run h = Inl (RuntimeError ''INPUT_DIR is not set in .env'')"
    if "strip (getenv_default h ''INPUT_DIR'' []) = []"
    using that by (simp add: run_def load_config_def)
  show "summary_written h = None" if "run h = Inl e" for e
    using that by (simp add: summary_written_def)
qed

theorem run_halts_iff_witness:
  "strip (getenv_default (example_host [] [''data/b.csv'']) ''INPUT_DIR'' []) = []
   \<and> run (example_host [] [''data/b.csv'']) = Inl (RuntimeError ''INPUT_DIR is not set in .env'')
   \<and> summary_written (example_host [] [''data/b.csv'']) = None
   \<and> ''data/bad.csv'' \<in> set (glob_csv (example_host [(''INPUT_DIR'', ''data'')] [''data/b.csv'', ''data/bad.csv''])
         (strip (getenv_default (example_host [(''INPUT_DIR'', ''data'')] [''data/b.csv'', ''data/bad.csv''])
            ''INPUT_DIR'' [])))
   \<and> attempt_fails (example_host [(''INPUT_DIR'', ''data'')] [''data/b.csv'', ''data/bad.csv'']) Comma ''data/bad.csv''
   \<and> attempt_fails (example_host [(''INPUT_DIR'', ''data'')] [''data/b.csv'', ''data/bad.csv'']) Semicolon ''data/bad.csv''
   \<and> (\<exists>e. run (example_host [(''INPUT_DIR'', ''data'')] [''data/b.csv'', ''data/bad.csv'']) = Inl e)"
proof -
  let ?hA = "example_host [] [''data/b.csv'']"
  let ?hB = "example_host [(''INPUT_DIR'', ''data'')] [''data/b.csv'', ''data/bad.csv'']"
  have a: "strip (getenv_default ?hA ''INPUT_DIR'' []) = []" by code_simp
  have g: "''data/bad.csv'' \<in> set (glob_csv ?hB (strip (getenv_default ?hB ''INPUT_DIR'' [])))"
    by code_simp
  have f1: "attempt_fails ?hB Comma ''data/bad.csv''" by code_simp
  have f2: "attempt_fails ?hB Semicolon ''data/bad.csv''" by code_simp
  from run_halts_iff[of ?hA] a
  have ra: "run ?hA = Inl (RuntimeError ''INPUT_DIR is not set in .env'')" by blast
  with run_halts_iff[of ?hA] have sa: "summary_written ?hA = None" by blast
  from run_halts_iff[of ?hB] g f1 f2 have "\<exists>e. run ?hB = Inl e" by blast
  with a ra sa g f1 f2 show ?thesis by blast
qed

theorem run_halts_counterexample:
  "run (example_host [(''INPUT_DIR'', ''data''), (''PEAKS_PER_CURVE'', ''abc'')] [''data/b.csv''])
     = Inl (ValueError ''invalid literal for int()'')
   \<and> strip (getenv_default
        (example_host [(''INPUT_DIR'', ''data''), (''PEAKS_PER_CURVE'', ''abc'')] [''data/b.csv''])
        ''INPUT_DIR'' []) = ''data''
   \<and> glob_csv (example_host [(''INPUT_DIR'', ''data''), (''PEAKS_PER_CURVE'', ''abc'')] [''data/b.csv''])
        ''data'' = [''data/b.csv'']
   \<and> snd (read_csv_any
        (example_host [(''INPUT_DIR'', ''data''), (''PEAKS_PER_CURVE'', ''abc'')] [''data/b.csv''])
        ''data/b.csv'') = Inr [(4000, 0.95), (3500, 0.40), (3000, 0.92), (2500, 0.97)]"
  by code_simp

subsection \<open>C7: the vertical offsets\<close>

text \<open>
  C7. The curves are in the order of their file names, and the \<open>i\<close>-th of \<open>n\<close>
  curves (counted from 1) is plotted with the offset \<open>(n - i) * OFFSET_STEP\<close>, so
  that the last curve has offset zero; the claim, and the comment
  \<open>vertical stacking: first curve highest\<close> beside the computation in the source,
  say that this draws the first curve highest. The code takes \<open>OFFSET_STEP\<close> as it
  is configured and does not do so for a negative step: the run below, with
  \<open>OFFSET_STEP=-1\<close> and the two files \<open>b.csv\<close> and \<open>sub/A.csv\<close>, plots the first
  curve \<open>A.csv\<close> with offset \<open>-1\<close> and the last curve \<open>b.csv\<close> with offset \<open>0\<close>:
  the first curve is drawn lowest.
\<close>

theorem first_curve_lowest_at_negative_step:
  "run (example_host [(''INPUT_DIR'', ''data''), (''OFFSET_STEP'', ''-1'')]
         [''data/b.csv'', ''data/sub/A.csv'']) =
     Inr \<lparr>plotted = [(''A.csv'', - 1), (''b.csv'', 0)],
          peak_rows =
            [\<lparr>file_name = ''A.csv'', mode = Auto, guess_cm = None, peak_cm = 2000, transmittance = 0.3\<rparr>,
             \<lparr>file_name = ''b.csv'', mode = Auto, guess_cm = None, peak_cm = 3500, transmittance = 0.4\<rparr>],
          summary = Some
            [\<lparr>file_name = ''A.csv'', mode = Auto, guess_cm = None, peak_cm = 2000, transmittance = 0.3\<rparr>,
             \<lparr>file_name = ''b.csv'', mode = Auto, guess_cm = None, peak_cm = 3500, transmittance = 0.4\<rparr>]\<rparr>"
  by code_simp

subsection \<open>C10: a file without valid rows\<close>

text \<open>
  C10. When every file loads and one of them gives a curve without samples, the run
  does not halt: that curve goes through the detector and the annotator and adds no
  row, and the rows of the run are the rows of the curves one after the other, each
  curve's rows being what the loop body gives for that curve whatever its position
  and the number of curves.
\<close>

theorem empty_curve_continues:
  assumes cfg: "load_config h = Inr cfg"
    and curves: "load_all h (sorted_files h (input_dir cfg)) = Inr curves"
    and k: "k < length curves" and empty: "snd (curves ! k) = []"
  shows "\<exists>out res. run h = Inr out \<and> plot_all cfg curves = Inr res
     \<and> length res = length curves
     \<and> peak_rows out = concat (map snd res)
     \<and> snd (res ! k) = []
     \<and> (\<forall>j<length curves. \<forall>n i. \<exists>entry.
            process_curve cfg n (i, curves ! j) = Inr (entry, snd (res ! j)))"
proof -
  from load_all_Inr[OF curves] have lf: "length curves = length (sorted_files h (input_dir cfg))"
    by blast
  with k have fne: "sorted_files h (input_dir cfg) \<noteq> []" by auto
  from plot_all_spec[of cfg curves] obtain res where res: "plot_all cfg curves = Inr res"
    "length res = length curves"
    "\<forall>j<length curves. (snd (curves ! j) = [] \<longrightarrow> snd (res ! j) = [])
       \<and> (\<forall>n i. \<exists>entry. process_curve cfg n (i, curves ! j) = Inr (entry, snd (res ! j)))"
    by blast
  define out where "out = \<lparr>plotted = map fst res, peak_rows = concat (map snd res),
                      summary = (if concat (map snd res) \<noteq> [] then Some (concat (map snd res))
                                 else None)\<rparr>"
  have "run h = Inr out"
    unfolding out_def using cfg fne curves res(1) by (rule run_Inr)
  moreover have "peak_rows out = concat (map snd res)" by (simp add: out_def)
  moreover have "snd (res ! k) = []" using res(3) k empty by blast
  ultimately show ?thesis using res by blast
qed

theorem empty_curve_continues_witness:
  "load_config (example_host [(''INPUT_DIR'', ''data'')]
       [''data/b.csv'', ''data/empty.csv'', ''data/sub/A.csv'']) = Inr (example_config 5 None)
   \<and> load_all (example_host [(''INPUT_DIR'', ''data'')]
          [''data/b.csv'', ''data/empty.csv'', ''data/sub/A.csv''])
        (sorted_files (example_host [(''INPUT_DIR'', ''data'')]
            [''data/b.csv'', ''data/empty.csv'', ''data/sub/A.csv''])
           (input_dir (example_config 5 None))) =
     Inr [(''A.csv'', [(3000, 0.8), (2000, 0.3), (1000, 0.9)]),
          (''b.csv'', [(4000, 0.95), (3500, 0.40), (3000, 0.92), (2500, 0.97)]),
          (''empty.csv'', [])]
   \<and> (\<exists>out res. run (example_host [(''INPUT_DIR'', ''data'')]
                       [''data/b.csv'', ''data/empty.csv'', ''data/sub/A.csv'']) = Inr out
         \<and> plot_all (example_config 5 None)
              [(''A.csv'', [(3000, 0.8), (2000, 0.3), (1000, 0.9)]),
               (''b.csv'', [(4000, 0.95), (3500, 0.40), (3000, 0.92), (2500, 0.97)]),
               (''empty.csv'', [])] = Inr res
         \<and> length res = 3 \<and> peak_rows out = concat (map snd res) \<and> snd (res ! 2) = [])
   \<and> run (example_host [(''INPUT_DIR'', ''data'')]
          [''data/b.csv'', ''data/empty.csv'', ''data/sub/A.csv'']) =
     Inr \<lparr>plotted = [(''A.csv'', 0.35), (''b.csv'', 0.175), (''empty.csv'', 0)],
          peak_rows =
            [\<lparr>file_name = ''A.csv'', mode = Auto, guess_cm = None, peak_cm = 2000, transmittance = 0.3\<rparr>,
             \<lparr>file_name = ''b.csv'', mode = Auto, guess_cm = None, peak_cm = 3500, transmittance = 0.4\<rparr>],
          summary = Some
            [\<lparr>file_name = ''A.csv'', mode = Auto, guess_cm = None, peak_cm = 2000, transmittance = 0.3\<rparr>,
             \<lparr>file_name = ''b.csv'', mode = Auto, guess_cm = None, peak_cm = 3500, transmittance = 0.4\<rparr>]\<rparr>"
proof -
  let ?h = "example_host [(''INPUT_DIR'', ''data'')]
       [''data/b.csv'', ''data/empty.csv'', ''data/sub/A.csv'']"
  let ?cs = "[(''A.csv'', [(3000, 0.8), (2000, 0.3), (1000, 0.9)]),
          (''b.csv'', [(4000, 0.95), (3500, 0.40), (3000, 0.92), (2500, 0.97)]),
          (''empty.csv'', [])] :: (string \<times> curve) list"
  have c: "load_config ?h = Inr (example_config 5 None)" by code_simp
  have l: "load_all ?h (sorted_files ?h (input_dir (example_config 5 None))) = Inr ?cs"
    by code_simp
  have k: "2 < length ?cs" "snd (?cs ! 2) = []" by simp_all
  have r: "run ?h =
     Inr \<lparr>plotted = [(''A.csv'', 0.35), (''b.csv'', 0.175), (''empty.csv'', 0)],
          peak_rows =
            [\<lparr>file_name = ''A.csv'', mode = Auto, guess_cm = None, peak_cm = 2000, transmittance = 0.3\<rparr>,
             \<lparr>file_name = ''b.csv'', mode = Auto, guess_cm = None, peak_cm = 3500, transmittance = 0.4\<rparr>],
          summary = Some
            [\<lparr>file_name = ''A.csv'', mode = Auto, guess_cm = None, peak_cm = 2000, transmittance = 0.3\<rparr>,
             \<lparr>file_name = ''b.csv'', mode = Auto, guess_cm = None, peak_cm = 3500, transmittance = 0.4\<rparr>]\<rparr>"
    by code_simp
  have len: "length ?cs = 3" by simp
  from empty_curve_continues[OF c l k]
  have "\<exists>out res. run ?h = Inr out \<and> plot_all (example_config 5 None) ?cs = Inr res
         \<and> length res = length ?cs \<and> peak_rows out = concat (map snd res) \<and> snd (res ! 2) = []"
    by blast
  then have "\<exists>out res. run ?h = Inr out \<and> plot_all (example_config 5 None) ?cs = Inr res
         \<and> length res = 3 \<and> peak_rows out = concat (map snd res) \<and> snd (res ! 2) = []"
    by (simp only: len)
  with c l r show ?thesis by blast
qed

subsection \<open>C6: malformed guess tokens\<close>

text \<open>
  C6. \<open>TARGET_GUESSES\<close> never halts the run: the configuration fails to load with
  the variable set exactly when it fails with the variable unset. The guesses of the
  configuration are the values of the tokens of the stripped string that \<open>float\<close>
  converts, in order; the tokens it does not convert are dropped. When no token
  converts, and so when the string is empty or made of delimiters only, there are no
  guesses, the run is the run with the variable unset, and it is in auto mode.
\<close>

theorem malformed_guesses:
  "(\<forall>cfg. load_config (h\<lparr>getenv := (getenv h)(''TARGET_GUESSES'' \<mapsto> v)\<rparr>) = Inr cfg \<longrightarrow>
        target_guesses cfg = parse_guesses h (strip v))
   \<and> (parse_guesses h (strip v) = None \<longleftrightarrow>
        (\<forall>tok\<in>set (re_split (strip v)). tok \<noteq> [] \<longrightarrow> py_float h tok = None))
   \<and> (\<forall>gs. parse_guesses h (strip v) = Some gs \<longrightarrow>
        gs \<noteq> [] \<and>
        gs = map (\<lambda>tok. the (py_float h tok))
               (filter (\<lambda>tok. tok \<noteq> [] \<and> py_float h tok \<noteq> None) (re_split (strip v))))
   \<and> ((\<exists>e. load_config (h\<lparr>getenv := (getenv h)(''TARGET_GUESSES'' \<mapsto> v)\<rparr>) = Inl e) \<longleftrightarrow>
        (\<exists>e. load_config (h\<lparr>getenv := (getenv h)(''TARGET_GUESSES'' := None)\<rparr>) = Inl e))
   \<and> (parse_guesses h (strip v) = None \<longrightarrow>
        run (h\<lparr>getenv := (getenv h)(''TARGET_GUESSES'' \<mapsto> v)\<rparr>) =
        run (h\<lparr>getenv := (getenv h)(''TARGET_GUESSES'' := None)\<rparr>)
        \<and> (\<forall>cfg. load_config (h\<lparr>getenv := (getenv h)(''TARGET_GUESSES'' \<mapsto> v)\<rparr>) = Inr cfg \<longrightarrow>
              \<not> truthy (target_guesses cfg)))
   \<and> ((\<forall>c\<in>set v. is_delim c) \<longrightarrow> parse_guesses h (strip v) = None)"
proof (intro conjI allI impI)
  show "target_guesses cfg = parse_guesses h (strip v)"
    if "load_config (h\<lparr>getenv := (getenv h)(''TARGET_GUESSES'' \<mapsto> v)\<rparr>) = Inr cfg" for cfg
    using that unfolding load_config_guesses_set by (auto split: sum.splits)
  show "parse_guesses h (strip v) = None \<longleftrightarrow>
        (\<forall>tok\<in>set (re_split (strip v)). tok \<noteq> [] \<longrightarrow> py_float h tok = None)"
    by (rule parse_guesses_None_iff)
  show "gs \<noteq> []" if "parse_guesses h (strip v) = Some gs" for gs
    using parse_guesses_Some[OF that] by blast
  show "gs = map (\<lambda>tok. the (py_float h tok))
               (filter (\<lambda>tok. tok \<noteq> [] \<and> py_float h tok \<noteq> None) (re_split (strip v)))"
    if "parse_guesses h (strip v) = Some gs" for gs
    using parse_guesses_Some[OF that] by blast
  show "(\<exists>e. load_config (h\<lparr>getenv := (getenv h)(''TARGET_GUESSES'' \<mapsto> v)\<rparr>) = Inl e) \<longleftrightarrow>
        (\<exists>e. load_config (h\<lparr>getenv := (getenv h)(''TARGET_GUESSES'' := None)\<rparr>) = Inl e)"
    unfolding load_config_guesses_set load_config_guesses_unset
    by (cases "load_config h") simp_all
  show "run (h\<lparr>getenv := (getenv h)(''TARGET_GUESSES'' \<mapsto> v)\<rparr>) =
        run (h\<lparr>getenv := (getenv h)(''TARGET_GUESSES'' := None)\<rparr>)"
    if "parse_guesses h (strip v) = None"
    using that by (rule run_guesses)
  show "\<not> truthy (target_guesses cfg)"
    if "parse_guesses h (strip v) = None"
      and "load_config (h\<lparr>getenv := (getenv h)(''TARGET_GUESSES'' \<mapsto> v)\<rparr>) = Inr cfg" for cfg
    using that unfolding load_config_guesses_set
    by (auto simp: truthy_def split: sum.splits)
  show "parse_guesses h (strip v) = None" if "\<forall>c\<in>set v. is_delim c"
  proof -
    from that set_strip[of v] have "\<forall>c\<in>set (strip v). is_delim c" by blast
    then show ?thesis by (rule parse_guesses_delims)
  qed
qed

theorem malformed_guesses_witness:
  "list_all is_delim '',; ,''
   \<and> parse_guesses (example_host [(''INPUT_DIR'', ''data'')] [''data/sub/A.csv'']) (strip '',; ,'') = None
   \<and> run ((example_host [(''INPUT_DIR'', ''data'')] [''data/sub/A.csv''])
          \<lparr>getenv := (getenv (example_host [(''INPUT_DIR'', ''data'')] [''data/sub/A.csv'']))
                       (''TARGET_GUESSES'' \<mapsto> '',; ,'')\<rparr>) =
       run ((example_host [(''INPUT_DIR'', ''data'')] [''data/sub/A.csv''])
          \<lparr>getenv := (getenv (example_host [(''INPUT_DIR'', ''data'')] [''data/sub/A.csv'']))
                       (''TARGET_GUESSES'' := None)\<rparr>)
   \<and> parse_guesses (example_host [(''INPUT_DIR'', ''data'')] [''data/sub/A.csv''])
         (strip '' abc,3500;x1 '') = Some [3500]
   \<and> [3500] = map (\<lambda>tok. the (py_float (example_host [(''INPUT_DIR'', ''data'')] [''data/sub/A.csv'']) tok))
         (filter (\<lambda>tok. tok \<noteq> []
                   \<and> py_float (example_host [(''INPUT_DIR'', ''data'')] [''data/sub/A.csv'']) tok \<noteq> None)
            (re_split (strip '' abc,3500;x1 '')))"
proof -
  let ?h = "example_host [(''INPUT_DIR'', ''data'')] [''data/sub/A.csv'']"
  have l: "list_all is_delim '',; ,''" by code_simp
  then have d: "\<forall>c\<in>set '',; ,''. is_delim c" by (simp only: list_all_iff)
  from malformed_guesses[of ?h "'',; ,''"] d
  have n: "parse_guesses ?h (strip '',; ,'') = None" by blast
  with malformed_guesses[of ?h "'',; ,''"]
  have r: "run (?h\<lparr>getenv := (getenv ?h)(''TARGET_GUESSES'' \<mapsto> '',; ,'')\<rparr>) =
       run (?h\<lparr>getenv := (getenv ?h)(''TARGET_GUESSES'' := None)\<rparr>)" by blast
  have p: "parse_guesses ?h (strip '' abc,3500;x1 '') = Some [3500]" by code_simp
  with malformed_guesses[of ?h "'' abc,3500;x1 ''"]
  have m: "[3500] = map (\<lambda>tok. the (py_float ?h tok))
         (filter (\<lambda>tok. tok \<noteq> [] \<and> py_float ?h tok \<noteq> None)
            (re_split (strip '' abc,3500;x1 '')))" by blast
  from l n r p m show ?thesis by blast
qed

end
